theory Spec2Isabelle
  imports Main
begin

unbundle bit_operations_syntax

section \<open>Python values and errors\<close>

text \<open>
  The program is \<^verbatim>\<open>solve.py\<close>. A \<^verbatim>\<open>bytes\<close> object and a list of small integers are
  both lists of natural numbers here; Python's unbounded \<^verbatim>\<open>int\<close> is \<^typ>\<open>int\<close> wherever a
  value can be negative (a counter, a difference before \<^verbatim>\<open>% 256\<close>). Every exception the
  modelled code can raise is a value of \<open>py_error\<close>; a computation that can raise returns
  \<open>py_error + 'a\<close>, with \<open>Inl\<close> for the exception.
\<close>

datatype py_error =
  IndexError | KeyError | TypeError | ValueError | OverflowError | UnicodeDecodeError

type_synonym bytes = "nat list"

text \<open>\<^verbatim>\<open>xs[i]\<close> for an index that is a non-negative integer.\<close>

definition py_index :: "'a list \<Rightarrow> nat \<Rightarrow> py_error + 'a" where
  "py_index xs i = (if i < length xs then Inr (xs ! i) else Inl IndexError)"

text \<open>\<^verbatim>\<open>xs[i]\<close> for any integer index: a negative index counts from the end.\<close>

definition py_index_int :: "'a list \<Rightarrow> int \<Rightarrow> py_error + 'a" where
  "py_index_int xs i =
     (let n = int (length xs); k = (if i < 0 then n + i else i)
      in if 0 \<le> k \<and> k < n then Inr (xs ! nat k) else Inl IndexError)"

text \<open>A \<^verbatim>\<open>for\<close> loop over a list whose body can raise: the first exception ends the loop.\<close>

fun for_each :: "('s \<Rightarrow> 'a \<Rightarrow> py_error + 's) \<Rightarrow> 'a list \<Rightarrow> 's \<Rightarrow> py_error + 's" where
  "for_each body [] s = Inr s"
| "for_each body (x # xs) s =
     (case body s x of Inl e \<Rightarrow> Inl e | Inr s' \<Rightarrow> for_each body xs s')"

section \<open>The simulated key scheduling (lines 249--254 of \<^verbatim>\<open>attack\<close>)\<close>

text \<open>
  \<^verbatim>\<open>
  S = [i for i in range(256)]
  j = 0
  for i in range(num_known_bytes):
      j = (j + S[i] + known_bytes[i]) % 256
      S[i], S[j] = S[j], S[i]
  \<close>
  The tuple assignment reads \<^verbatim>\<open>S[j]\<close> and \<^verbatim>\<open>S[i]\<close> with the new \<open>j\<close>, then stores into
  \<^verbatim>\<open>S[i]\<close> and into \<^verbatim>\<open>S[j]\<close>, in this order.
\<close>

type_synonym ksa_state = "nat list \<times> nat"

definition ksa_init :: ksa_state where
  "ksa_init = ([0..<256], 0)"

definition ksa_step :: "bytes \<Rightarrow> ksa_state \<Rightarrow> nat \<Rightarrow> py_error + ksa_state" where
  "ksa_step known_bytes st i =
     (case st of (S, j) \<Rightarrow>
        (case py_index S i of Inl e \<Rightarrow> Inl e | Inr si \<Rightarrow>
        (case py_index known_bytes i of Inl e \<Rightarrow> Inl e | Inr ki \<Rightarrow>
           (let j' = (j + si + ki) mod 256 in
            (case py_index S j' of Inl e \<Rightarrow> Inl e | Inr sj \<Rightarrow>
               Inr (S[i := sj, j' := si], j'))))))"

text \<open>The loop run for \<open>n\<close> rounds; \<open>simulate_ksa\<close> is the loop as \<^verbatim>\<open>attack\<close> runs it.\<close>

definition ksa_loop :: "bytes \<Rightarrow> nat \<Rightarrow> py_error + ksa_state" where
  "ksa_loop known_bytes n = for_each (ksa_step known_bytes) [0..<n] ksa_init"

definition simulate_ksa :: "bytes \<Rightarrow> py_error + ksa_state" where
  "simulate_ksa known_bytes = ksa_loop known_bytes (length known_bytes)"

text \<open>
  The rounds as the specification words them: round \<open>i\<close> sets
  \<open>j = (j + S[i] + known_bytes[i]) mod 256\<close> and swaps \<open>S[i]\<close> with \<open>S[j]\<close>, from
  \<open>S[i] = i\<close> and \<open>j = 0\<close>. It is compared with \<open>simulate_ksa\<close> below.
\<close>

definition swap_slots :: "nat list \<Rightarrow> nat \<Rightarrow> nat \<Rightarrow> nat list" where
  "swap_slots S a b = S[a := S ! b, b := S ! a]"

primrec spec_ksa_rounds :: "bytes \<Rightarrow> nat \<Rightarrow> ksa_state" where
  "spec_ksa_rounds known_bytes 0 = ([0..<256], 0)"
| "spec_ksa_rounds known_bytes (Suc i) =
     (case spec_ksa_rounds known_bytes i of (S, j) \<Rightarrow>
        (let j' = (j + S ! i + known_bytes ! i) mod 256 in (swap_slots S i j', j')))"

text \<open>The state array holds every value of \<open>0..255\<close> once.\<close>

definition permutation256 :: "nat list \<Rightarrow> bool" where
  "permutation256 S \<longleftrightarrow> length S = 256 \<and> distinct S \<and> set S = {0..<256}"

section \<open>The candidate of one sample (lines 243--244 and 312--328 of \<^verbatim>\<open>attack\<close>)\<close>

text \<open>
  \<^verbatim>\<open>
  pre_i = None
  for x in range(256):
      if S[x] == next_S_i:
          pre_i = x
          break
  \<close>
\<close>

fun search_slots :: "nat list \<Rightarrow> nat \<Rightarrow> nat list \<Rightarrow> py_error + nat option" where
  "search_slots S v [] = Inr None"
| "search_slots S v (x # xs) =
     (case py_index S x of Inl e \<Rightarrow> Inl e
      | Inr sx \<Rightarrow> if sx = v then Inr (Some x) else search_slots S v xs)"

definition find_pre_i :: "nat list \<Rightarrow> nat \<Rightarrow> py_error + nat option" where
  "find_pre_i S next_S_i = search_slots S next_S_i [0..<256]"

text \<open>
  \<^verbatim>\<open>
  output_byte = keystream[num_known_bytes - 1]
  next_S_i = (num_known_bytes - output_byte) % 256
  ...
  key_byte = (pre_i - j - S[num_known_bytes]) % 256
  \<close>
  Python's \<^verbatim>\<open>%\<close> with a positive modulus is never negative, as \<open>mod\<close> on \<^typ>\<open>int\<close>.
  \<^verbatim>\<open>pre_i - j\<close> is evaluated before \<^verbatim>\<open>S[num_known_bytes]\<close>; for \<^verbatim>\<open>pre_i = None\<close> it raises
  \<^verbatim>\<open>TypeError\<close>.
\<close>

definition next_S_i_of :: "nat \<Rightarrow> nat \<Rightarrow> nat" where
  "next_S_i_of num_known_bytes output_byte =
     nat ((int num_known_bytes - int output_byte) mod 256)"

definition key_byte_of :: "nat \<Rightarrow> nat \<Rightarrow> nat \<Rightarrow> nat" where
  "key_byte_of pre_i j s_n = nat ((int pre_i - int j - int s_n) mod 256)"

definition extract_candidate :: "ksa_state \<Rightarrow> nat \<Rightarrow> bytes \<Rightarrow> py_error + nat" where
  "extract_candidate st num_known_bytes keystream =
     (case st of (S, j) \<Rightarrow>
        (case py_index_int keystream (int num_known_bytes - 1) of Inl e \<Rightarrow> Inl e
         | Inr output_byte \<Rightarrow>
        (case find_pre_i S (next_S_i_of num_known_bytes output_byte) of Inl e \<Rightarrow> Inl e
         | Inr None \<Rightarrow> Inl TypeError
         | Inr (Some pre_i) \<Rightarrow>
        (case py_index S num_known_bytes of Inl e \<Rightarrow> Inl e
         | Inr s_n \<Rightarrow> Inr (key_byte_of pre_i j s_n)))))"

text \<open>A sample is \<^verbatim>\<open>(counter, keystream)\<close>; the body of \<^verbatim>\<open>for counter, keystream in samples\<close>.\<close>

type_synonym sample = "bytes \<times> bytes"

definition known_bytes_of :: "bytes \<Rightarrow> bytes \<Rightarrow> bytes \<Rightarrow> bytes" where
  "known_bytes_of nonce counter key = nonce @ counter @ key"

definition sample_candidate :: "bytes \<Rightarrow> bytes \<Rightarrow> sample \<Rightarrow> py_error + nat" where
  "sample_candidate nonce key smp =
     (case smp of (counter, keystream) \<Rightarrow>
        (let known_bytes = known_bytes_of nonce counter key;
             num_known_bytes = length known_bytes
         in (case simulate_ksa known_bytes of Inl e \<Rightarrow> Inl e
             | Inr st \<Rightarrow> extract_candidate st num_known_bytes keystream)))"

text \<open>
  \<^verbatim>\<open>candidate_key_bytes = []\<close>, then one \<^verbatim>\<open>append\<close> for each sample, in the order of the
  samples; \<open>round_body\<close> is one pass of the \<^verbatim>\<open>for\<close> loop.
\<close>

definition round_body :: "bytes \<Rightarrow> bytes \<Rightarrow> nat list \<Rightarrow> sample \<Rightarrow> py_error + nat list" where
  "round_body nonce key =
     (\<lambda>candidate_key_bytes smp.
        (case sample_candidate nonce key smp of Inl e \<Rightarrow> Inl e
         | Inr key_byte \<Rightarrow> Inr (candidate_key_bytes @ [key_byte])))"

definition round_candidates :: "bytes \<Rightarrow> bytes \<Rightarrow> sample list \<Rightarrow> py_error + nat list" where
  "round_candidates nonce key samples = for_each (round_body nonce key) samples []"

text \<open>
  The samples on which the body of the loop raises nothing, as shown below: the known
  bytes number fewer than 256, and the keystream is not empty and not shorter than the
  known bytes.
\<close>

definition sample_in_range :: "bytes \<Rightarrow> bytes \<Rightarrow> sample \<Rightarrow> bool" where
  "sample_in_range nonce key smp =
     (case smp of (counter, keystream) \<Rightarrow>
        length (nonce @ counter @ key) < 256 \<and> keystream \<noteq> [] \<and>
        length (nonce @ counter @ key) \<le> length keystream)"

text \<open>
  The candidate as the specification words it: with \<open>(S, j)\<close> the simulated state over the
  known bytes and \<open>output_byte = keystream[num_known_bytes - 1]\<close> (read as Python reads it:
  for no known byte at all, index \<open>-1\<close> is the last byte), \<open>pre_i\<close> is the smallest index
  with \<open>S[pre_i] = (num_known_bytes - output_byte) mod 256\<close> and the candidate is
  \<open>(pre_i - j - S[num_known_bytes]) mod 256\<close>, a value of \<open>0..255\<close>.
\<close>

definition candidate_as_specified :: "bytes \<Rightarrow> bytes \<Rightarrow> sample \<Rightarrow> nat \<Rightarrow> bool" where
  "candidate_as_specified nonce key smp c =
     (case smp of (counter, keystream) \<Rightarrow>
        (let known_bytes = nonce @ counter @ key;
             n = length known_bytes;
             output_byte = (if n = 0 then last keystream else keystream ! (n - 1));
             next_S_i = (int n - int output_byte) mod 256
         in \<exists>S j pre_i.
              simulate_ksa known_bytes = Inr (S, j) \<and>
              pre_i < 256 \<and> int (S ! pre_i) = next_S_i \<and>
              (\<forall>x<pre_i. int (S ! x) \<noteq> next_S_i) \<and>
              int c = (int pre_i - int j - int (S ! n)) mod 256 \<and>
              c < 256))"

section \<open>\<^verbatim>\<open>count_elements\<close> and \<^verbatim>\<open>most_common_element\<close>\<close>

text \<open>
  \<^verbatim>\<open>
  def count_elements(xs):
      counts = {x: 0 for x in xs}
      for x in xs:
          counts[x] += 1
      return counts
  \<close>
  The dictionary is a map; \<^verbatim>\<open>counts[x] += 1\<close> raises \<^verbatim>\<open>KeyError\<close> on a key that is absent.
\<close>

definition zero_counts :: "nat list \<Rightarrow> (nat \<rightharpoonup> nat)" where
  "zero_counts xs = fold (\<lambda>x counts. counts(x \<mapsto> 0)) xs Map.empty"

definition count_bump :: "(nat \<rightharpoonup> nat) \<Rightarrow> nat \<Rightarrow> py_error + (nat \<rightharpoonup> nat)" where
  "count_bump counts x =
     (case counts x of None \<Rightarrow> Inl KeyError | Some c \<Rightarrow> Inr (counts(x \<mapsto> c + 1)))"

definition count_elements :: "nat list \<Rightarrow> py_error + (nat \<rightharpoonup> nat)" where
  "count_elements xs = for_each count_bump xs (zero_counts xs)"

text \<open>
  \<^verbatim>\<open>max(xs, key=counts.get)\<close>: the built-in raises \<^verbatim>\<open>ValueError\<close> on an empty sequence,
  keeps the first item, and replaces it by a later item only when that item's key is
  greater (\<^verbatim>\<open>>\<close>) than the key of the item kept. \<^verbatim>\<open>counts.get\<close> is \<^verbatim>\<open>None\<close> on an absent key,
  and comparing with \<^verbatim>\<open>None\<close> raises \<^verbatim>\<open>TypeError\<close>.
\<close>

definition py_gt :: "nat option \<Rightarrow> nat option \<Rightarrow> py_error + bool" where
  "py_gt a b =
     (case a of None \<Rightarrow> Inl TypeError
      | Some x \<Rightarrow> (case b of None \<Rightarrow> Inl TypeError | Some y \<Rightarrow> Inr (y < x)))"

fun max_loop :: "(nat \<Rightarrow> nat option) \<Rightarrow> nat \<Rightarrow> nat option \<Rightarrow> nat list \<Rightarrow> py_error + nat" where
  "max_loop keyf maxitem maxval [] = Inr maxitem"
| "max_loop keyf maxitem maxval (x # xs) =
     (case py_gt (keyf x) maxval of Inl e \<Rightarrow> Inl e
      | Inr is_gt \<Rightarrow>
          if is_gt then max_loop keyf x (keyf x) xs
          else max_loop keyf maxitem maxval xs)"

definition py_max_key :: "(nat \<Rightarrow> nat option) \<Rightarrow> nat list \<Rightarrow> py_error + nat" where
  "py_max_key keyf xs =
     (case xs of [] \<Rightarrow> Inl ValueError | x # rest \<Rightarrow> max_loop keyf x (keyf x) rest)"

definition most_common_element :: "nat list \<Rightarrow> py_error + nat" where
  "most_common_element xs =
     (case count_elements xs of Inl e \<Rightarrow> Inl e | Inr counts \<Rightarrow> py_max_key counts xs)"

text \<open>
  The position of the first occurrence of a value in a sequence (the length of the
  sequence when it does not occur), to word the order in which \<^verbatim>\<open>max\<close> meets the values.
\<close>

definition first_occurrence :: "nat list \<Rightarrow> nat \<Rightarrow> nat" where
  "first_occurrence xs v = length (takeWhile (\<lambda>y. y \<noteq> v) xs)"

section \<open>\<^verbatim>\<open>test_key\<close>\<close>

text \<open>
  \<^verbatim>\<open>counter.to_bytes(length=counter_size, byteorder="little", signed=False)\<close>, the
  built-in of Python: \<^verbatim>\<open>ValueError\<close> for a negative length, \<^verbatim>\<open>OverflowError\<close> for a
  negative integer and for one that does not fit in \<open>length\<close> bytes; otherwise the
  \<open>length\<close> base-256 digits, least significant first.
\<close>

fun le_digits :: "nat \<Rightarrow> nat \<Rightarrow> bytes" where
  "le_digits 0 n = []"
| "le_digits (Suc k) n = (n mod 256) # le_digits k (n div 256)"

definition to_bytes_little :: "int \<Rightarrow> int \<Rightarrow> py_error + bytes" where
  "to_bytes_little n len =
     (if len < 0 then Inl ValueError
      else if n < 0 then Inl OverflowError
      else if 256 ^ nat len \<le> n then Inl OverflowError
      else Inr (le_digits (nat len) (nat n)))"

text \<open>The value a little-endian byte string encodes.\<close>

fun le_value :: "bytes \<Rightarrow> nat" where
  "le_value [] = 0"
| "le_value (b # bs) = b + 256 * le_value bs"

text \<open>
  \<^verbatim>\<open>
  def test_key(nonce, counter, counter_size, key, plaintext, expected_ciphertext):
      try:
          key_bytes = (
              nonce
              + counter.to_bytes(length=counter_size, byteorder="little", signed=False)
              + key
          )
          cipher = Cipher(
              algorithm=algorithms.ARC4(key_bytes), mode=None, backend=default_backend()
          )
          encryptor = cipher.encryptor()
          ciphertext = encryptor.update(plaintext)
          return ciphertext == expected_ciphertext
      except:
          return False
  \<close>
  The cipher is the \<^verbatim>\<open>cryptography\<close> package's, not this program's: it is the parameter
  \<open>arc4\<close>, which takes the key bytes and the plaintext and returns the ciphertext or
  raises. \<open>test_key_try\<close> is the body of the \<^verbatim>\<open>try\<close>, \<open>test_key\<close> the function with its
  bare \<^verbatim>\<open>except\<close>.
\<close>

type_synonym cipher = "bytes \<Rightarrow> bytes \<Rightarrow> py_error + bytes"

definition test_key_try ::
  "cipher \<Rightarrow> bytes \<Rightarrow> int \<Rightarrow> int \<Rightarrow> bytes \<Rightarrow> bytes \<Rightarrow> bytes \<Rightarrow> py_error + bool" where
  "test_key_try arc4 nonce counter counter_size key plaintext expected_ciphertext =
     (case to_bytes_little counter counter_size of Inl e \<Rightarrow> Inl e
      | Inr counter_bytes \<Rightarrow>
        (let key_bytes = nonce @ counter_bytes @ key
         in (case arc4 key_bytes plaintext of Inl e \<Rightarrow> Inl e
             | Inr ciphertext \<Rightarrow> Inr (ciphertext = expected_ciphertext))))"

definition test_key ::
  "cipher \<Rightarrow> bytes \<Rightarrow> int \<Rightarrow> int \<Rightarrow> bytes \<Rightarrow> bytes \<Rightarrow> bytes \<Rightarrow> bool" where
  "test_key arc4 nonce counter counter_size key plaintext expected_ciphertext =
     (case test_key_try arc4 nonce counter counter_size key plaintext expected_ciphertext of
        Inl e \<Rightarrow> False
      | Inr verified \<Rightarrow> verified)"

text \<open>
  A cipher to run \<open>test_key\<close> on: RC4 as the \<^verbatim>\<open>cryptography\<close> package provides it. The
  key schedule runs all 256 rounds over the key repeated cyclically, the generator
  yields one keystream byte for each plaintext byte, and \<^verbatim>\<open>algorithms.ARC4\<close> raises
  \<^verbatim>\<open>ValueError\<close> for a key that is not 5, 7, 8, 10, 16, 20, 24 or 32 bytes long. It is
  used for concrete runs only; every theorem on \<open>test_key\<close> holds for any cipher.
\<close>

definition rc4_key_schedule :: "bytes \<Rightarrow> nat list" where
  "rc4_key_schedule key =
     fst (spec_ksa_rounds (map (\<lambda>i. key ! (i mod length key)) [0..<256]) 256)"

fun rc4_generate :: "nat list \<Rightarrow> nat \<Rightarrow> nat \<Rightarrow> bytes \<Rightarrow> bytes" where
  "rc4_generate S i j [] = []"
| "rc4_generate S i j (p # ps) =
     (let i' = (i + 1) mod 256;
          j' = (j + S ! i') mod 256;
          S' = swap_slots S i' j';
          k = S' ! ((S' ! i' + S' ! j') mod 256)
      in (p XOR k) # rc4_generate S' i' j' ps)"

definition arc4_update :: cipher where
  "arc4_update key_bytes plaintext =
     (if length key_bytes \<in> {5, 7, 8, 10, 16, 20, 24, 32}
      then Inr (rc4_generate (rc4_key_schedule key_bytes) 0 0 plaintext)
      else Inl ValueError)"

section \<open>Building a sample (lines 226--231 of \<^verbatim>\<open>attack\<close>)\<close>

text \<open>
  \<^verbatim>\<open>
  keystream = bytes([xor(pt, ct) for pt, ct in zip(plaintext, ciphertext)])
  counter = counter.to_bytes(length=counter_size, byteorder="little", signed=False)
  samples.append((counter, keystream))
  \<close>
  \<^verbatim>\<open>zip\<close> stops at the end of the shorter sequence.
\<close>

definition make_sample :: "int \<Rightarrow> int \<Rightarrow> bytes \<Rightarrow> bytes \<Rightarrow> py_error + sample" where
  "make_sample counter_size counter plaintext ciphertext =
     (let keystream = map (\<lambda>(pt, ct). pt XOR ct) (zip plaintext ciphertext)
      in (case to_bytes_little counter counter_size of Inl e \<Rightarrow> Inl e
          | Inr counter_bytes \<Rightarrow> Inr (counter_bytes, keystream)))"

section \<open>The recovery loop (lines 238--354 of \<^verbatim>\<open>attack\<close>)\<close>

text \<open>
  \<^verbatim>\<open>
  key = b""
  while not test_key(test_nonce, test_counter, counter_size, key, test_pt, test_ct):
      candidate_key_bytes = []
      for counter, keystream in samples:
          ...
          candidate_key_bytes.append(key_byte)
      chosen_key_byte = most_common_element(candidate_key_bytes)
      key += bytes([chosen_key_byte])
      logging.info("Picked %s for %sth key byte: key=0x%s='%s'", ...)
  logging.info("Key=%s='%s' verified working!", key.hex(), key.decode("ascii"))
  return key
  \<close>
  \<open>recovery_round\<close> is the body of the \<^verbatim>\<open>while\<close> loop up to \<^verbatim>\<open>chosen_key_byte\<close>: the
  candidates of all samples, then the most common one.
\<close>

definition recovery_round :: "bytes \<Rightarrow> sample list \<Rightarrow> bytes \<Rightarrow> py_error + nat" where
  "recovery_round nonce samples key =
     (case round_candidates nonce key samples of Inl e \<Rightarrow> Inl e
      | Inr candidate_key_bytes \<Rightarrow> most_common_element candidate_key_bytes)"

text \<open>
  The loop has no bound of its own, so it is a partial function: \<open>None\<close> would be a run
  that never ends. The state is the key and the list of keys logged so far (one entry
  after every round); the result is that list with the key returned or the exception
  that ended the run. \<open>verify\<close> stands for the call of \<^verbatim>\<open>test_key\<close> on the test vector.
\<close>

partial_function (option) recovery_loop ::
  "(bytes \<Rightarrow> bool) \<Rightarrow> bytes \<Rightarrow> sample list \<Rightarrow> bytes \<Rightarrow> bytes list
     \<Rightarrow> (bytes list \<times> (py_error + bytes)) option" where
  "recovery_loop verify nonce samples key logged =
     (if verify key then Some (logged, Inr key)
      else (case recovery_round nonce samples key of
              Inl e \<Rightarrow> Some (logged, Inl e)
            | Inr chosen_key_byte \<Rightarrow>
                recovery_loop verify nonce samples (key @ [chosen_key_byte])
                  (logged @ [key @ [chosen_key_byte]])))"

text \<open>
  After the loop the key is decoded as ASCII for the last log line, which raises for a
  byte above 127, and is returned.
\<close>

definition decode_ascii :: "bytes \<Rightarrow> py_error + bytes" where
  "decode_ascii key = (if list_all (\<lambda>b. b < 128) key then Inr key else Inl UnicodeDecodeError)"

definition attack_recover ::
  "cipher \<Rightarrow> bytes \<Rightarrow> int \<Rightarrow> int \<Rightarrow> bytes \<Rightarrow> bytes \<Rightarrow> bytes \<Rightarrow> sample list
     \<Rightarrow> (bytes list \<times> (py_error + bytes)) option" where
  "attack_recover arc4 test_nonce test_counter counter_size test_pt test_ct nonce samples =
     (case recovery_loop
             (\<lambda>key. test_key arc4 test_nonce test_counter counter_size key test_pt test_ct)
             nonce samples [] [] of
        None \<Rightarrow> None
      | Some (logged, Inl e) \<Rightarrow> Some (logged, Inl e)
      | Some (logged, Inr key) \<Rightarrow> Some (logged, decode_ascii key))"

text \<open>
  What a run of the loop logs, to word that the key only grows: every logged key is the
  key before it with the byte chosen by the round on that key appended.
\<close>

fun round_chain :: "bytes \<Rightarrow> sample list \<Rightarrow> bytes \<Rightarrow> bytes list \<Rightarrow> bool" where
  "round_chain nonce samples key [] = True"
| "round_chain nonce samples key (k # ks) =
     (case recovery_round nonce samples key of Inl e \<Rightarrow> False
      | Inr b \<Rightarrow> k = key @ [b] \<and> round_chain nonce samples k ks)"

text \<open>The number of rounds a run completed (of keys it logged) and how it ended.\<close>

definition rounds_and_outcome ::
  "(bytes list \<times> (py_error + bytes)) option \<Rightarrow> (nat \<times> (py_error + bytes)) option" where
  "rounds_and_outcome run =
     (case run of None \<Rightarrow> None | Some (logged, outcome) \<Rightarrow> Some (length logged, outcome))"

section \<open>Properties of the simulated key scheduling\<close>


lemma for_each_append:
  "for_each body (xs @ ys) s =
     (case for_each body xs s of Inl e \<Rightarrow> Inl e | Inr s' \<Rightarrow> for_each body ys s')"
  by (induction xs arbitrary: s) (auto split: sum.splits)

lemma ksa_loop_0: "ksa_loop known_bytes 0 = Inr ksa_init"
  by (simp add: ksa_loop_def)

lemma ksa_loop_Suc:
  "ksa_loop known_bytes (Suc n) =
     (case ksa_loop known_bytes n of Inl e \<Rightarrow> Inl e | Inr st \<Rightarrow> ksa_step known_bytes st n)"
  by (simp add: ksa_loop_def for_each_append split: sum.splits)

lemma ksa_loop_error_stays:
  "ksa_loop known_bytes n = Inl e \<Longrightarrow> n \<le> m \<Longrightarrow> ksa_loop known_bytes m = Inl e"
  by (induction m) (auto simp: ksa_loop_Suc le_Suc_eq)

lemma permutation256_init: "permutation256 [0..<256]"
  by (simp add: permutation256_def)

lemma permutation256_swap:
  "permutation256 S \<Longrightarrow> a < 256 \<Longrightarrow> b < 256 \<Longrightarrow> permutation256 (swap_slots S a b)"
  by (simp add: permutation256_def swap_slots_def)

lemma ksa_step_ok:
  assumes "length S = 256" "i < 256" "i < length known_bytes"
  shows "ksa_step known_bytes (S, j) i =
           Inr (swap_slots S i ((j + S ! i + known_bytes ! i) mod 256),
                (j + S ! i + known_bytes ! i) mod 256)"
  using assms by (simp add: ksa_step_def py_index_def swap_slots_def Let_def)

lemma spec_ksa_rounds_perm:
  "n \<le> 256 \<Longrightarrow> permutation256 (fst (spec_ksa_rounds known_bytes n)) \<and>
     snd (spec_ksa_rounds known_bytes n) < 256"
proof (induction n)
  case 0
  show ?case by (simp add: permutation256_init)
next
  case (Suc n)
  then show ?case
    by (auto simp: Let_def split: prod.splits intro!: permutation256_swap)
qed

lemma ksa_loop_rounds:
  "n \<le> 256 \<Longrightarrow> n \<le> length known_bytes \<Longrightarrow>
     ksa_loop known_bytes n = Inr (spec_ksa_rounds known_bytes n)"
proof (induction n)
  case 0
  show ?case by (simp add: ksa_loop_0 ksa_init_def)
next
  case (Suc n)
  obtain S j where st: "spec_ksa_rounds known_bytes n = (S, j)"
    by (cases "spec_ksa_rounds known_bytes n")
  have "permutation256 S"
    using spec_ksa_rounds_perm [of n known_bytes] Suc.prems st by simp
  then have len: "length S = 256"
    by (simp add: permutation256_def)
  from Suc st len show ?case
    by (simp add: ksa_loop_Suc ksa_step_ok Let_def)
qed

lemma ksa_loop_past_256:
  assumes "256 < n" "256 \<le> length known_bytes"
  shows "ksa_loop known_bytes n = Inl IndexError"
proof -
  obtain S j where st: "spec_ksa_rounds known_bytes 256 = (S, j)"
    by (cases "spec_ksa_rounds known_bytes 256")
  have "permutation256 S"
    using spec_ksa_rounds_perm [of 256 known_bytes] st by simp
  then have len: "length S = 256"
    by (simp add: permutation256_def)
  have "ksa_loop known_bytes 256 = Inr (S, j)"
    using ksa_loop_rounds [of 256 known_bytes] assms st by simp
  then have "ksa_loop known_bytes (Suc 256) = Inl IndexError"
    using len by (subst ksa_loop_Suc) (simp add: ksa_step_def py_index_def)
  then show ?thesis
    using assms ksa_loop_error_stays [of known_bytes "Suc 256" IndexError n] by simp
qed

lemma simulate_ksa_long:
  "256 < length known_bytes \<Longrightarrow> simulate_ksa known_bytes = Inl IndexError"
  by (simp add: simulate_ksa_def ksa_loop_past_256)

lemma ksa_loop_past_prefix:
  assumes "length known_bytes < n"
  shows "ksa_loop known_bytes n = Inl IndexError"
proof (cases "length known_bytes < 256")
  case True
  let ?m = "length known_bytes"
  obtain S j where st: "spec_ksa_rounds known_bytes ?m = (S, j)"
    by (cases "spec_ksa_rounds known_bytes ?m")
  from True have m: "?m \<le> 256" by simp
  have "ksa_loop known_bytes ?m = Inr (S, j)"
    using ksa_loop_rounds [OF m] st by simp
  then have "ksa_loop known_bytes (Suc ?m) = Inl IndexError"
    by (subst ksa_loop_Suc) (simp add: ksa_step_def py_index_def split: sum.splits)
  then show ?thesis
    using assms ksa_loop_error_stays [of known_bytes "Suc ?m" IndexError n] by simp
next
  case False
  with assms have "256 < n" "256 \<le> length known_bytes" by simp_all
  then show ?thesis by (rule ksa_loop_past_256)
qed

lemma ksa_loop_Inr_bounds:
  assumes "ksa_loop known_bytes n = Inr st"
  shows "n \<le> length known_bytes \<and> n \<le> 256"
proof -
  have a: "n \<le> length known_bytes"
  proof (rule ccontr)
    assume "\<not> n \<le> length known_bytes"
    then have "length known_bytes < n" by simp
    from ksa_loop_past_prefix [OF this] assms show False by simp
  qed
  have "n \<le> 256"
  proof (rule ccontr)
    assume "\<not> n \<le> 256"
    with a have "256 < n" "256 \<le> length known_bytes" by simp_all
    from ksa_loop_past_256 [OF this] assms show False by simp
  qed
  with a show ?thesis by simp
qed

section \<open>Properties of the candidate of one sample and of a round\<close>

lemma search_slots_find:
  "\<forall>x\<in>set xs. x < length S \<Longrightarrow>
     search_slots S v xs = Inr (find (\<lambda>x. S ! x = v) xs)"
  by (induction xs) (auto simp: py_index_def)

lemma find_upt_first:
  assumes "i < n" "P i"
  shows "\<exists>x<n. find P [0..<n] = Some x \<and> P x \<and> (\<forall>y<x. \<not> P y)"
proof -
  have "find P [0..<n] \<noteq> None"
    using assms by (simp add: find_None_iff) blast
  then obtain x where x: "find P [0..<n] = Some x"
    by blast
  then obtain k where k: "k < n" "P ([0..<n] ! k)" "x = [0..<n] ! k"
    "\<forall>m<k. \<not> P ([0..<n] ! m)"
    unfolding find_Some_iff by auto
  then have "x < n" "P x" "\<forall>y<x. \<not> P y"
    by simp_all
  with x show ?thesis by blast
qed

lemma search_slots_upt:
  "n \<le> length S \<Longrightarrow> search_slots S v [0..<n] = Inr (find (\<lambda>x. S ! x = v) [0..<n])"
  by (rule search_slots_find) simp

lemma find_pre_i_perm:
  assumes perm: "permutation256 S" and v: "v < 256"
  shows "\<exists>x<256. find_pre_i S v = Inr (Some x) \<and> S ! x = v \<and>
           (\<forall>y<256. S ! y = v \<longrightarrow> y = x)"
proof -
  from perm have len: "length S = 256" and dist: "distinct S" and set: "set S = {0..<256}"
    by (simp_all add: permutation256_def)
  have eq: "find_pre_i S v = Inr (find (\<lambda>x. S ! x = v) [0..<256])"
    unfolding find_pre_i_def by (rule search_slots_upt) (simp add: len)
  from v set have "v \<in> set S" by simp
  then obtain i where i: "i < length S" "S ! i = v"
    unfolding in_set_conv_nth by blast
  from i len have "i < 256" by simp
  from find_upt_first [of i 256 "\<lambda>x. S ! x = v", OF this i(2)]
  obtain x where x: "x < 256" "find (\<lambda>x. S ! x = v) [0..<256] = Some x" "S ! x = v"
    by blast
  have "y = x" if "y < 256" "S ! y = v" for y
  proof -
    have "S ! y = S ! x" using that(2) x(3) by simp
    moreover have "y < length S" "x < length S" using that(1) x(1) len by simp_all
    ultimately show ?thesis using dist nth_eq_iff_index_eq by blast
  qed
  then have uniq: "\<forall>y<256. S ! y = v \<longrightarrow> y = x" by blast
  have "find_pre_i S v = Inr (Some x)" using eq x(2) by simp
  with x(1) x(3) uniq show ?thesis by blast
qed

lemma py_index_int_pred:
  "py_index_int keystream (int n - 1) =
     (if keystream \<noteq> [] \<and> n \<le> length keystream
      then Inr (if n = 0 then last keystream else keystream ! (n - 1))
      else Inl IndexError)"
proof (cases "n = 0")
  case True
  then show ?thesis
    by (cases "keystream = []")
       (auto simp: py_index_int_def Let_def last_conv_nth nat_diff_distrib')
next
  case False
  then have "nat (int n - 1) = n - 1" by simp
  with False show ?thesis
    by (auto simp: py_index_int_def Let_def)
qed

lemma next_S_i_of_less: "next_S_i_of n b < 256"
  by (simp add: next_S_i_of_def)

lemma key_byte_of_less: "key_byte_of p j s < 256"
  by (simp add: key_byte_of_def)

lemma extract_candidate_ok:
  assumes perm: "permutation256 S" and n: "n < 256"
    and ks: "keystream \<noteq> []" "n \<le> length keystream"
  shows "\<exists>pre_i<256.
           extract_candidate (S, j) n keystream = Inr (key_byte_of pre_i j (S ! n)) \<and>
           S ! pre_i = next_S_i_of n (if n = 0 then last keystream else keystream ! (n - 1)) \<and>
           (\<forall>y<256. S ! y = S ! pre_i \<longrightarrow> y = pre_i)"
proof -
  let ?b = "if n = 0 then last keystream else keystream ! (n - 1)"
  from perm have len: "length S = 256" by (simp add: permutation256_def)
  obtain x where x: "x < 256" "find_pre_i S (next_S_i_of n ?b) = Inr (Some x)"
    "S ! x = next_S_i_of n ?b" "\<forall>y<256. S ! y = next_S_i_of n ?b \<longrightarrow> y = x"
    using find_pre_i_perm [OF perm next_S_i_of_less, of n ?b] by blast
  have "extract_candidate (S, j) n keystream = Inr (key_byte_of x j (S ! n))"
    using ks n len x(2)
    by (simp add: extract_candidate_def py_index_int_pred py_index_def)
  moreover have "\<forall>y<256. S ! y = S ! x \<longrightarrow> y = x"
    using x(4) unfolding x(3) .
  ultimately show ?thesis using x(1) x(3) by blast
qed

lemma simulate_ksa_ok:
  "length known_bytes \<le> 256 \<Longrightarrow>
     simulate_ksa known_bytes = Inr (spec_ksa_rounds known_bytes (length known_bytes))"
  by (simp add: simulate_ksa_def ksa_loop_rounds)

lemma simulate_ksa_perm:
  assumes "simulate_ksa known_bytes = Inr (S, j)"
  shows "permutation256 S \<and> j < 256 \<and> length known_bytes \<le> 256"
proof (cases "length known_bytes \<le> 256")
  case True
  with assms have "spec_ksa_rounds known_bytes (length known_bytes) = (S, j)"
    by (simp add: simulate_ksa_ok)
  with spec_ksa_rounds_perm [OF True, of known_bytes] True show ?thesis
    by simp
next
  case False
  with assms show ?thesis
    by (simp add: simulate_ksa_long)
qed

lemma extract_candidate_fail:
  assumes perm: "permutation256 S"
    and bad: "\<not> (n < 256 \<and> keystream \<noteq> [] \<and> n \<le> length keystream)"
  shows "extract_candidate (S, j) n keystream = Inl IndexError"
proof (cases "keystream \<noteq> [] \<and> n \<le> length keystream")
  case True
  let ?b = "if n = 0 then last keystream else keystream ! (n - 1)"
  from perm have len: "length S = 256" by (simp add: permutation256_def)
  obtain x where x: "find_pre_i S (next_S_i_of n ?b) = Inr (Some x)"
    using find_pre_i_perm [OF perm next_S_i_of_less, of n ?b] by blast
  from True bad have "\<not> n < length S" using len by simp
  with True x show ?thesis
    by (simp add: extract_candidate_def py_index_int_pred py_index_def)
next
  case False
  then have "py_index_int keystream (int n - 1) = Inl IndexError"
    unfolding py_index_int_pred by simp
  then show ?thesis
    by (simp add: extract_candidate_def)
qed

lemma sample_candidate_ok:
  assumes n: "n = length nonce + length counter + length key"
    and ok: "n < 256" "keystream \<noteq> []" "n \<le> length keystream"
  shows "\<exists>S j pre_i.
           simulate_ksa (nonce @ counter @ key) = Inr (S, j) \<and> pre_i < 256 \<and>
           sample_candidate nonce key (counter, keystream) = Inr (key_byte_of pre_i j (S ! n)) \<and>
           S ! pre_i = next_S_i_of n (if n = 0 then last keystream else keystream ! (n - 1)) \<and>
           (\<forall>y<256. S ! y = S ! pre_i \<longrightarrow> y = pre_i)"
proof -
  let ?kb = "nonce @ counter @ key"
  have len: "length ?kb = n" using n by simp
  obtain S j where st: "spec_ksa_rounds ?kb n = (S, j)"
    by (cases "spec_ksa_rounds ?kb n")
  have sim: "simulate_ksa ?kb = Inr (S, j)"
    using simulate_ksa_ok [of ?kb] ok(1) st unfolding len by simp
  then have perm: "permutation256 S"
    using simulate_ksa_perm by blast
  from extract_candidate_ok [OF perm ok, of j]
  obtain pre_i where p: "pre_i < 256"
    "extract_candidate (S, j) n keystream = Inr (key_byte_of pre_i j (S ! n))"
    "S ! pre_i = next_S_i_of n (if n = 0 then last keystream else keystream ! (n - 1))"
    "\<forall>y<256. S ! y = S ! pre_i \<longrightarrow> y = pre_i"
    by blast
  have "sample_candidate nonce key (counter, keystream) = Inr (key_byte_of pre_i j (S ! n))"
    using sim p(2) len by (simp add: sample_candidate_def known_bytes_of_def)
  with sim p(1) p(3) p(4) show ?thesis by blast
qed

lemma sample_candidate_fail:
  assumes n: "n = length nonce + length counter + length key"
    and bad: "\<not> (n < 256 \<and> keystream \<noteq> [] \<and> n \<le> length keystream)"
  shows "sample_candidate nonce key (counter, keystream) = Inl IndexError"
proof (cases "simulate_ksa (nonce @ counter @ key)")
  case (Inl e)
  have "256 < length (nonce @ counter @ key)"
  proof (rule ccontr)
    assume "\<not> 256 < length (nonce @ counter @ key)"
    then have "length (nonce @ counter @ key) \<le> 256" by simp
    from simulate_ksa_ok [OF this] Inl show False by simp
  qed
  then have "simulate_ksa (nonce @ counter @ key) = Inl IndexError"
    by (rule simulate_ksa_long)
  then show ?thesis
    by (simp add: sample_candidate_def known_bytes_of_def)
next
  case (Inr st)
  obtain S j where st: "st = (S, j)" by (cases st)
  with Inr have "permutation256 S" using simulate_ksa_perm by blast
  from extract_candidate_fail [OF this bad, of j] Inr st n show ?thesis
    by (simp add: sample_candidate_def known_bytes_of_def add.assoc)
qed

lemma sample_candidate_Inr_iff:
  "(\<exists>c. sample_candidate nonce key (counter, keystream) = Inr c) \<longleftrightarrow>
     length nonce + length counter + length key < 256 \<and> keystream \<noteq> [] \<and>
     length nonce + length counter + length key \<le> length keystream"
proof
  assume "\<exists>c. sample_candidate nonce key (counter, keystream) = Inr c"
  then show "length nonce + length counter + length key < 256 \<and> keystream \<noteq> [] \<and>
     length nonce + length counter + length key \<le> length keystream"
  proof (rule_tac ccontr)
    assume c: "\<exists>c. sample_candidate nonce key (counter, keystream) = Inr c"
      and "\<not> (length nonce + length counter + length key < 256 \<and> keystream \<noteq> [] \<and>
     length nonce + length counter + length key \<le> length keystream)"
    from sample_candidate_fail [OF refl this(2)] c show False by simp
  qed
next
  assume "length nonce + length counter + length key < 256 \<and> keystream \<noteq> [] \<and>
     length nonce + length counter + length key \<le> length keystream"
  then show "\<exists>c. sample_candidate nonce key (counter, keystream) = Inr c"
    using sample_candidate_ok [OF refl, of nonce counter key keystream] by blast
qed

lemma sample_candidate_error:
  "sample_candidate nonce key smp = Inl e \<Longrightarrow> e = IndexError"
proof -
  assume a: "sample_candidate nonce key smp = Inl e"
  obtain counter keystream where smp: "smp = (counter, keystream)" by (cases smp)
  show "e = IndexError"
  proof (cases "length nonce + length counter + length key < 256 \<and> keystream \<noteq> [] \<and>
     length nonce + length counter + length key \<le> length keystream")
    case True
    then have "\<exists>c. sample_candidate nonce key (counter, keystream) = Inr c"
      by (simp add: sample_candidate_Inr_iff)
    with a smp show ?thesis by auto
  next
    case False
    from sample_candidate_fail [OF refl False] a smp show ?thesis by simp
  qed
qed

lemma round_loop_Inr:
  "for_each (round_body nonce key) samples acc = Inr out \<Longrightarrow>
     \<exists>cs. out = acc @ cs \<and>
       list_all2 (\<lambda>smp c. sample_candidate nonce key smp = Inr c) samples cs"
proof (induction samples arbitrary: acc)
  case Nil
  then show ?case by simp
next
  case (Cons smp samples)
  from Cons.prems obtain c where c: "sample_candidate nonce key smp = Inr c"
    and rest: "for_each (round_body nonce key) samples (acc @ [c]) = Inr out"
    by (auto simp: round_body_def split: sum.splits)
  from Cons.IH [OF rest] obtain cs where "out = (acc @ [c]) @ cs"
    "list_all2 (\<lambda>smp c. sample_candidate nonce key smp = Inr c) samples cs"
    by blast
  with c have "out = acc @ (c # cs) \<and>
       list_all2 (\<lambda>smp c. sample_candidate nonce key smp = Inr c) (smp # samples) (c # cs)"
    by simp
  then show ?case by blast
qed

lemma round_loop_ok:
  "list_all2 (\<lambda>smp c. sample_candidate nonce key smp = Inr c) samples cs \<Longrightarrow>
     for_each (round_body nonce key) samples acc = Inr (acc @ cs)"
proof (induction samples arbitrary: acc cs)
  case Nil
  then show ?case by simp
next
  case (Cons smp samples)
  then obtain c cs' where "cs = c # cs'" "sample_candidate nonce key smp = Inr c"
    "list_all2 (\<lambda>smp c. sample_candidate nonce key smp = Inr c) samples cs'"
    by (auto simp: list_all2_Cons1)
  with Cons.IH [of cs' "acc @ [c]"] show ?case
    by (simp add: round_body_def)
qed

lemma round_loop_fail:
  "smp \<in> set samples \<Longrightarrow> sample_candidate nonce key smp = Inl e \<Longrightarrow>
     for_each (round_body nonce key) samples acc = Inl IndexError"
proof (induction samples arbitrary: acc)
  case Nil
  then show ?case by simp
next
  case (Cons s samples)
  show ?case
  proof (cases "sample_candidate nonce key s")
    case (Inl e')
    then have "e' = IndexError" by (rule sample_candidate_error)
    with Inl show ?thesis by (simp add: round_body_def)
  next
    case (Inr c)
    with Cons.prems have "smp \<in> set samples" by auto
    from Cons.IH [OF this Cons.prems(2)] Inr show ?thesis
      by (simp add: round_body_def)
  qed
qed

lemma round_candidates_body:
  "round_candidates nonce key samples = for_each (round_body nonce key) samples []"
  by (simp add: round_candidates_def)

lemma sample_in_range_iff:
  "sample_in_range nonce key (counter, keystream) \<longleftrightarrow>
     length nonce + length counter + length key < 256 \<and> keystream \<noteq> [] \<and>
     length nonce + length counter + length key \<le> length keystream"
  by (simp add: sample_in_range_def add.assoc)

lemma sample_candidate_specified:
  assumes "sample_in_range nonce key smp"
  shows "\<exists>c. sample_candidate nonce key smp = Inr c \<and> candidate_as_specified nonce key smp c"
proof -
  obtain counter keystream where smp: "smp = (counter, keystream)" by (cases smp)
  define n where "n = length nonce + length counter + length key"
  have len: "length (nonce @ counter @ key) = n" by (simp add: n_def)
  from assms smp have ok: "n < 256" "keystream \<noteq> []" "n \<le> length keystream"
    by (simp_all add: sample_in_range_iff n_def)
  let ?b = "if n = 0 then last keystream else keystream ! (n - 1)"
  from sample_candidate_ok [OF n_def ok]
  obtain S j pre_i where st: "simulate_ksa (nonce @ counter @ key) = Inr (S, j)"
    and p: "pre_i < 256"
    and c: "sample_candidate nonce key (counter, keystream) = Inr (key_byte_of pre_i j (S ! n))"
    and nx: "S ! pre_i = next_S_i_of n ?b"
    and uq: "\<forall>y<256. S ! y = S ! pre_i \<longrightarrow> y = pre_i"
    by blast
  have nx': "int (S ! pre_i) = (int n - int ?b) mod 256"
    unfolding nx by (simp add: next_S_i_of_def)
  have first: "\<forall>x<pre_i. int (S ! x) \<noteq> (int n - int ?b) mod 256"
  proof (intro allI impI)
    fix x assume x: "x < pre_i"
    show "int (S ! x) \<noteq> (int n - int ?b) mod 256"
    proof
      assume "int (S ! x) = (int n - int ?b) mod 256"
      with nx' have "S ! x = S ! pre_i" by simp
      moreover from x p have "x < 256" by simp
      ultimately have "x = pre_i" using uq by blast
      with x show False by simp
    qed
  qed
  have kb: "int (key_byte_of pre_i j (S ! n)) = (int pre_i - int j - int (S ! n)) mod 256"
    by (simp add: key_byte_of_def)
  have "candidate_as_specified nonce key (counter, keystream) (key_byte_of pre_i j (S ! n))"
    unfolding candidate_as_specified_def prod.case Let_def len
    using st p nx' first kb key_byte_of_less [of pre_i j "S ! n"] by blast
  with c smp show ?thesis by blast
qed

lemma round_candidates_Inr_iff:
  "(\<exists>cs. round_candidates nonce key samples = Inr cs) \<longleftrightarrow>
     (\<forall>smp\<in>set samples. sample_in_range nonce key smp)"
proof
  assume "\<exists>cs. round_candidates nonce key samples = Inr cs"
  then obtain cs where "for_each (round_body nonce key) samples [] = Inr cs"
    by (auto simp: round_candidates_body)
  from round_loop_Inr [OF this]
  obtain cs' where l: "list_all2 (\<lambda>smp c. sample_candidate nonce key smp = Inr c) samples cs'"
    by blast
  show "\<forall>smp\<in>set samples. sample_in_range nonce key smp"
  proof
    fix smp assume "smp \<in> set samples"
    then obtain k where k: "k < length samples" "smp = samples ! k"
      by (auto simp: in_set_conv_nth)
    with l have "sample_candidate nonce key smp = Inr (cs' ! k)"
      by (simp add: list_all2_conv_all_nth)
    then show "sample_in_range nonce key smp"
      using sample_candidate_Inr_iff [of nonce key "fst smp" "snd smp"]
      by (cases smp) (auto simp: sample_in_range_iff)
  qed
next
  assume a: "\<forall>smp\<in>set samples. sample_in_range nonce key smp"
  have "\<forall>smp\<in>set samples. \<exists>c. sample_candidate nonce key smp = Inr c"
    using a sample_candidate_specified by blast
  then have "\<exists>cs. list_all2 (\<lambda>smp c. sample_candidate nonce key smp = Inr c) samples cs"
    by (induction samples) (auto simp: list_all2_Cons1)
  then obtain cs where "list_all2 (\<lambda>smp c. sample_candidate nonce key smp = Inr c) samples cs"
    by blast
  from round_loop_ok [OF this, of "[]"] show "\<exists>cs. round_candidates nonce key samples = Inr cs"
    by (simp add: round_candidates_body)
qed

lemma round_candidates_error:
  assumes "round_candidates nonce key samples = Inl e"
  shows "e = IndexError \<and> (\<exists>smp\<in>set samples. \<not> sample_in_range nonce key smp)"
proof -
  have "\<not> (\<forall>smp\<in>set samples. sample_in_range nonce key smp)"
    using assms round_candidates_Inr_iff [of nonce key samples] by auto
  then obtain smp where smp: "smp \<in> set samples" "\<not> sample_in_range nonce key smp"
    by blast
  obtain counter keystream where ck: "smp = (counter, keystream)" by (cases smp)
  from smp(2) ck have "sample_candidate nonce key smp = Inl IndexError"
    using sample_candidate_fail [OF refl, of nonce counter key keystream]
    by (simp add: sample_in_range_iff)
  from round_loop_fail [OF smp(1) this, of "[]"] assms have "e = IndexError"
    by (simp add: round_candidates_body)
  with smp show ?thesis by blast
qed

lemma swap_slots_same: "a < length S \<Longrightarrow> swap_slots S a a = S"
  by (simp add: swap_slots_def)

lemma find_pre_i_identity: "v < 256 \<Longrightarrow> find_pre_i [0..<256] v = Inr (Some v)"
proof -
  assume v: "v < 256"
  from find_pre_i_perm [OF permutation256_init v]
  obtain x where x: "x < 256" "find_pre_i [0..<256] v = Inr (Some x)" "[0..<256] ! x = v"
    by blast
  from x(1) x(3) have "x = v" by simp
  with x(2) show ?thesis by simp
qed

lemma simulate_ksa_one_zero: "simulate_ksa [0] = Inr ([0..<256], 0)"
  by (simp add: simulate_ksa_ok swap_slots_same)

lemma sample_candidate_example: "sample_candidate [] [] ([0], [6, 5]) = Inr 250"
  by (simp add: sample_candidate_def known_bytes_of_def simulate_ksa_one_zero
        extract_candidate_def py_index_int_def py_index_def next_S_i_of_def
        find_pre_i_identity key_byte_of_def)

lemma round_candidates_example: "round_candidates [] [] [([0], [6, 5])] = Inr [250]"
  by (simp add: round_candidates_def round_body_def sample_candidate_example)

lemma make_sample_example: "make_sample 1 0 [1, 2, 3, 4] [7, 7] = Inr ([0], [6, 5])"
  by code_simp

section \<open>The simulation, the candidates and malformed samples\<close>

subsection \<open>The candidates of a round\<close>

text \<open>
  Claim C1. In a round where every sample is in range (fewer than 256 known bytes, a
  keystream that is not empty and not shorter than the known bytes), the round raises
  nothing and appends one candidate for each sample, in order; the candidate of a sample
  is \<open>(pre_i - j - S[num_known_bytes]) mod 256\<close>, where \<open>(S, j)\<close> is the state simulated
  over the known bytes, \<open>output_byte = keystream[num_known_bytes - 1]\<close> and \<open>pre_i\<close> is the
  smallest index with \<open>S[pre_i] = (num_known_bytes - output_byte) mod 256\<close>; it is a
  value of \<open>0..255\<close>.
\<close>

theorem round_candidates_formula:
  assumes "\<forall>smp\<in>set samples. sample_in_range nonce key smp"
  shows "\<exists>cands. round_candidates nonce key samples = Inr cands \<and>
           length cands = length samples \<and>
           (\<forall>k<length samples. candidate_as_specified nonce key (samples ! k) (cands ! k))"
proof -
  from assms obtain cands where r: "round_candidates nonce key samples = Inr cands"
    using round_candidates_Inr_iff by blast
  then have "for_each (round_body nonce key) samples [] = Inr cands"
    by (simp add: round_candidates_body)
  from round_loop_Inr [OF this]
  have l: "list_all2 (\<lambda>smp c. sample_candidate nonce key smp = Inr c) samples cands"
    by simp
  then have len: "length cands = length samples"
    by (simp add: list_all2_lengthD)
  have "candidate_as_specified nonce key (samples ! k) (cands ! k)" if "k < length samples" for k
  proof -
    from that assms have "sample_in_range nonce key (samples ! k)" by simp
    from sample_candidate_specified [OF this]
    obtain c where c: "sample_candidate nonce key (samples ! k) = Inr c"
      "candidate_as_specified nonce key (samples ! k) c"
      by blast
    from l that have "sample_candidate nonce key (samples ! k) = Inr (cands ! k)"
      by (simp add: list_all2_conv_all_nth)
    with c show ?thesis by simp
  qed
  with r len show ?thesis by blast
qed

theorem round_candidates_formula_witness:
  "sample_in_range [] [] ([0], [6, 5]) \<and>
   (\<exists>cands. round_candidates [] [] [([0], [6, 5])] = Inr cands \<and> length cands = 1 \<and>
      candidate_as_specified [] [] ([0], [6, 5]) (cands ! 0))"
proof -
  have h: "\<forall>smp\<in>set [([0], [6, 5])]. sample_in_range [] [] smp"
    by (simp add: sample_in_range_def)
  from round_candidates_formula [OF h] show ?thesis
    by (simp add: sample_in_range_def)
qed

subsection \<open>The rounds of the simulated key scheduling\<close>

text \<open>
  Claim C2 says that the simulation runs exactly \<open>len(known_bytes)\<close> rounds for every
  byte sequence. For 257 bytes it does not: round 256 reads \<^verbatim>\<open>S[256]\<close> and raises
  \<^verbatim>\<open>IndexError\<close>.
\<close>

theorem simulate_ksa_257_bytes: "simulate_ksa (replicate 257 0) = Inl IndexError"
  by (simp add: simulate_ksa_long)

text \<open>
  Claim C2, amended. For every sequence of at most 256 bytes the simulation starts from
  \<open>S[i] = i\<close> and \<open>j = 0\<close> and returns the state after exactly \<open>len(known_bytes)\<close> rounds
  of \<open>j = (j + S[i] + known_bytes[i]) mod 256\<close> and the swap of \<open>S[i]\<close> with \<open>S[j]\<close>; a
  longer sequence raises \<^verbatim>\<open>IndexError\<close>; the empty sequence gives the identity
  permutation with \<open>j = 0\<close>.
\<close>

theorem simulate_ksa_rounds:
  "(length known_bytes \<le> 256 \<longrightarrow>
      simulate_ksa known_bytes = Inr (spec_ksa_rounds known_bytes (length known_bytes))) \<and>
   (256 < length known_bytes \<longrightarrow> simulate_ksa known_bytes = Inl IndexError) \<and>
   simulate_ksa [] = Inr ([0..<256], 0)"
proof (intro conjI impI)
  assume "length known_bytes \<le> 256"
  then show "simulate_ksa known_bytes = Inr (spec_ksa_rounds known_bytes (length known_bytes))"
    by (simp add: simulate_ksa_def ksa_loop_rounds)
next
  assume "256 < length known_bytes"
  then show "simulate_ksa known_bytes = Inl IndexError"
    by (simp add: simulate_ksa_def ksa_loop_past_256)
next
  show "simulate_ksa [] = Inr ([0..<256], 0)"
    by (simp add: simulate_ksa_def ksa_loop_0 ksa_init_def)
qed

theorem simulate_ksa_rounds_witness:
  "length [1, 2, 3 :: nat] \<le> 256 \<and>
   simulate_ksa [1, 2, 3] = Inr (spec_ksa_rounds [1, 2, 3] (length [1, 2, 3 :: nat])) \<and>
   256 < length (replicate 300 (7 :: nat)) \<and>
   simulate_ksa (replicate 300 7) = Inl IndexError"
  using simulate_ksa_rounds [of "[1, 2, 3]"] simulate_ksa_rounds [of "replicate 300 7"]
  by simp

subsection \<open>The state array stays a permutation\<close>

text \<open>
  Claim C5. For every sequence of known bytes, the first \<open>n\<close> rounds of the simulation
  raise nothing whenever \<open>n\<close> is at most the number of known bytes and at most 256; and
  whenever \<open>n\<close> rounds have raised nothing, \<open>S\<close> is a permutation of \<open>0..255\<close> and \<open>j\<close> is
  below 256, so that the search for the index \<open>x\<close> with \<open>S[x] = next_S_i\<close> finds one for
  every value below 256 and no other index holds that value. \<open>next_S_i\<close> is always below
  256.
\<close>

theorem ksa_keeps_permutation:
  "(n \<le> length known_bytes \<and> n \<le> 256 \<longrightarrow> (\<exists>S j. ksa_loop known_bytes n = Inr (S, j))) \<and>
   (\<forall>S j. ksa_loop known_bytes n = Inr (S, j) \<longrightarrow>
      permutation256 S \<and> j < 256 \<and>
      (\<forall>v<256. \<exists>x<256. find_pre_i S v = Inr (Some x) \<and> S ! x = v \<and>
                  (\<forall>y<256. S ! y = v \<longrightarrow> y = x))) \<and>
   (\<forall>m b. next_S_i_of m b < 256)"
proof -
  have ex: "\<exists>S j. ksa_loop known_bytes n = Inr (S, j)"
    if "n \<le> length known_bytes \<and> n \<le> 256"
  proof -
    from that have "ksa_loop known_bytes n = Inr (spec_ksa_rounds known_bytes n)"
      by (simp add: ksa_loop_rounds)
    then show ?thesis
      by (cases "spec_ksa_rounds known_bytes n") auto
  qed
  have inv: "permutation256 S \<and> j < 256 \<and>
      (\<forall>v<256. \<exists>x<256. find_pre_i S v = Inr (Some x) \<and> S ! x = v \<and>
                  (\<forall>y<256. S ! y = v \<longrightarrow> y = x))"
    if run: "ksa_loop known_bytes n = Inr (S, j)" for S j
  proof -
    from ksa_loop_Inr_bounds [OF run] have b: "n \<le> 256" "n \<le> length known_bytes"
      by simp_all
    from ksa_loop_rounds [OF b] run have st: "spec_ksa_rounds known_bytes n = (S, j)"
      by simp
    from spec_ksa_rounds_perm [OF b(1), of known_bytes] st
    have perm: "permutation256 S" and j: "j < 256" by simp_all
    from find_pre_i_perm [OF perm] perm j show ?thesis by blast
  qed
  from ex inv next_S_i_of_less show ?thesis by blast
qed

theorem ksa_keeps_permutation_witness:
  "(2 :: nat) \<le> length [9, 8, 7 :: nat] \<and> (2 :: nat) \<le> 256 \<and>
   (\<exists>S j. ksa_loop [9, 8, 7] 2 = Inr (S, j) \<and> permutation256 S \<and> j < 256)"
  using ksa_keeps_permutation [of 2 "[9, 8, 7]"] by auto

subsection \<open>Samples of the wrong length\<close>

text \<open>
  Claim C8 says that a sample whose keystream or counter has the wrong length is
  rejected with an error and never truncated. A ciphertext of two bytes for a plaintext
  of four gives a keystream of two bytes (\<^verbatim>\<open>zip\<close> stops at the shorter), and the round
  then yields a candidate from it.
\<close>

theorem truncated_sample_gives_candidate:
  "make_sample 1 0 [1, 2, 3, 4] [7, 7] = Inr ([0], [6, 5]) \<and>
   length [6, 5 :: nat] \<noteq> length [1, 2, 3, 4 :: nat] \<and>
   round_candidates [] [] [([0], [6, 5])] = Inr [250]"
  using make_sample_example round_candidates_example by simp

text \<open>
  Claim C8, amended. The lengths of a sample are not checked. A round raises exactly when
  a sample is out of range for the indexing (256 known bytes or more, or a keystream that
  is empty or shorter than the known bytes), and the exception is then \<^verbatim>\<open>IndexError\<close>;
  when every sample is in range the round yields its candidates, whatever the lengths of
  the counters and keystreams.
\<close>

theorem round_fails_only_out_of_range:
  "(round_candidates nonce key samples = Inl IndexError \<longleftrightarrow>
      (\<exists>smp\<in>set samples. \<not> sample_in_range nonce key smp)) \<and>
   ((\<exists>cands. round_candidates nonce key samples = Inr cands) \<longleftrightarrow>
      (\<forall>smp\<in>set samples. sample_in_range nonce key smp))"
proof -
  have b: "(\<exists>cands. round_candidates nonce key samples = Inr cands) \<longleftrightarrow>
      (\<forall>smp\<in>set samples. sample_in_range nonce key smp)"
    by (rule round_candidates_Inr_iff)
  have a: "round_candidates nonce key samples = Inl IndexError \<longleftrightarrow>
      (\<exists>smp\<in>set samples. \<not> sample_in_range nonce key smp)"
  proof
    assume "round_candidates nonce key samples = Inl IndexError"
    then show "\<exists>smp\<in>set samples. \<not> sample_in_range nonce key smp"
      using round_candidates_error by blast
  next
    assume "\<exists>smp\<in>set samples. \<not> sample_in_range nonce key smp"
    with b have "\<not> (\<exists>cands. round_candidates nonce key samples = Inr cands)" by blast
    then obtain e where e: "round_candidates nonce key samples = Inl e"
      by (cases "round_candidates nonce key samples") auto
    from round_candidates_error [OF e] e
    show "round_candidates nonce key samples = Inl IndexError" by simp
  qed
  from a b show ?thesis by blast
qed

theorem round_fails_only_out_of_range_witness:
  "\<not> sample_in_range [1, 2] [3] ([0], [6, 5]) \<and>
   round_candidates [1, 2] [3] [([0], [6, 5, 4, 3]), ([0], [6, 5])] = Inl IndexError \<and>
   sample_in_range [1, 2] [3] ([0], [6, 5, 4, 3]) \<and>
   (\<exists>cands. round_candidates [1, 2] [3] [([0], [6, 5, 4, 3])] = Inr cands)"
  using round_fails_only_out_of_range [of "[1, 2]" "[3]" "[([0], [6, 5, 4, 3]), ([0], [6, 5])]"]
    round_fails_only_out_of_range [of "[1, 2]" "[3]" "[([0], [6, 5, 4, 3])]"]
  by (simp add: sample_in_range_def)

section \<open>Properties of \<^verbatim>\<open>count_elements\<close> and \<^verbatim>\<open>most_common_element\<close>\<close>

lemma zero_counts_fold:
  "fold (\<lambda>x counts. counts(x \<mapsto> 0)) xs m x = (if x \<in> set xs then Some (0 :: nat) else m x)"
  by (induction xs arbitrary: m) auto

lemma zero_counts_apply: "zero_counts xs x = (if x \<in> set xs then Some 0 else None)"
  by (simp add: zero_counts_def zero_counts_fold)

lemma count_loop:
  "set ys \<subseteq> dom m \<Longrightarrow>
     \<exists>m'. for_each count_bump ys m = Inr m' \<and>
       (\<forall>x. m' x = map_option (\<lambda>c. c + count_list ys x) (m x))"
proof (induction ys arbitrary: m)
  case Nil
  show ?case by (simp add: option.map_ident)
next
  case (Cons y ys)
  from Cons.prems obtain c where c: "m y = Some c" by auto
  let ?m = "m(y \<mapsto> c + 1)"
  from Cons.prems have "set ys \<subseteq> dom ?m" by auto
  from Cons.IH [OF this] obtain m' where m': "for_each count_bump ys ?m = Inr m'"
    "\<forall>x. m' x = map_option (\<lambda>c. c + count_list ys x) (?m x)"
    by blast
  have "for_each count_bump (y # ys) m = Inr m'"
    using c m'(1) by (simp add: count_bump_def)
  moreover have "m' x = map_option (\<lambda>c. c + count_list (y # ys) x) (m x)" for x
    using m'(2) c by (cases "x = y") simp_all
  ultimately show ?case by blast
qed

lemma count_elements_ok:
  "\<exists>counts. count_elements xs = Inr counts \<and>
     (\<forall>x. counts x = (if x \<in> set xs then Some (count_list xs x) else None))"
proof -
  have "set xs \<subseteq> dom (zero_counts xs)"
    by (auto simp: zero_counts_apply)
  from count_loop [OF this] obtain m' where m': "for_each count_bump xs (zero_counts xs) = Inr m'"
    "\<forall>x. m' x = map_option (\<lambda>c. c + count_list xs x) (zero_counts xs x)"
    by blast
  from m'(2) have "\<forall>x. m' x = (if x \<in> set xs then Some (count_list xs x) else None)"
    by (simp add: zero_counts_apply)
  with m'(1) show ?thesis
    by (simp add: count_elements_def)
qed

lemma max_loop_first:
  assumes "\<forall>y\<in>set (b # xs). keyf y = Some (f y)"
  shows "\<exists>m. max_loop keyf b (keyf b) xs = Inr m \<and>
           ((m = b \<and> (\<forall>y\<in>set xs. f y \<le> f b)) \<or>
            (\<exists>pre post. xs = pre @ m # post \<and> (\<forall>y\<in>set pre. f y < f m) \<and> f b < f m \<and>
               (\<forall>y\<in>set post. f y \<le> f m)))"
  using assms
proof (induction xs arbitrary: b)
  case Nil
  show ?case by simp
next
  case (Cons x xs)
  have kx: "keyf x = Some (f x)" and kb: "keyf b = Some (f b)"
    using Cons.prems by simp_all
  show ?case
  proof (cases "f b < f x")
    case True
    have "\<forall>y\<in>set (x # xs). keyf y = Some (f y)" using Cons.prems by simp
    from Cons.IH [OF this] obtain m where m: "max_loop keyf x (keyf x) xs = Inr m"
      and d: "(m = x \<and> (\<forall>y\<in>set xs. f y \<le> f x)) \<or>
            (\<exists>pre post. xs = pre @ m # post \<and> (\<forall>y\<in>set pre. f y < f m) \<and> f x < f m \<and>
               (\<forall>y\<in>set post. f y \<le> f m))"
      by blast
    have run: "max_loop keyf b (keyf b) (x # xs) = Inr m"
      using True m kx kb by (simp add: py_gt_def)
    from d have "\<exists>pre post. x # xs = pre @ m # post \<and> (\<forall>y\<in>set pre. f y < f m) \<and>
        f b < f m \<and> (\<forall>y\<in>set post. f y \<le> f m)"
    proof
      assume "m = x \<and> (\<forall>y\<in>set xs. f y \<le> f x)"
      then have "x # xs = [] @ m # xs \<and> (\<forall>y\<in>set []. f y < f m) \<and>
        f b < f m \<and> (\<forall>y\<in>set xs. f y \<le> f m)"
        using True by simp
      then show ?thesis by blast
    next
      assume "\<exists>pre post. xs = pre @ m # post \<and> (\<forall>y\<in>set pre. f y < f m) \<and> f x < f m \<and>
               (\<forall>y\<in>set post. f y \<le> f m)"
      then obtain pre post where p: "xs = pre @ m # post" "\<forall>y\<in>set pre. f y < f m"
        "f x < f m" "\<forall>y\<in>set post. f y \<le> f m"
        by blast
      then have "x # xs = (x # pre) @ m # post \<and> (\<forall>y\<in>set (x # pre). f y < f m) \<and>
        f b < f m \<and> (\<forall>y\<in>set post. f y \<le> f m)"
        using True by simp
      then show ?thesis by blast
    qed
    with run show ?thesis by blast
  next
    case False
    have "\<forall>y\<in>set (b # xs). keyf y = Some (f y)" using Cons.prems by simp
    from Cons.IH [OF this] obtain m where m: "max_loop keyf b (keyf b) xs = Inr m"
      and d: "(m = b \<and> (\<forall>y\<in>set xs. f y \<le> f b)) \<or>
            (\<exists>pre post. xs = pre @ m # post \<and> (\<forall>y\<in>set pre. f y < f m) \<and> f b < f m \<and>
               (\<forall>y\<in>set post. f y \<le> f m))"
      by blast
    have run: "max_loop keyf b (keyf b) (x # xs) = Inr m"
      using False m kx kb by (simp add: py_gt_def)
    from d show ?thesis
    proof
      assume "m = b \<and> (\<forall>y\<in>set xs. f y \<le> f b)"
      then have "m = b \<and> (\<forall>y\<in>set (x # xs). f y \<le> f b)"
        using False by simp
      with run show ?thesis by blast
    next
      assume "\<exists>pre post. xs = pre @ m # post \<and> (\<forall>y\<in>set pre. f y < f m) \<and> f b < f m \<and>
               (\<forall>y\<in>set post. f y \<le> f m)"
      then obtain pre post where p: "xs = pre @ m # post" "\<forall>y\<in>set pre. f y < f m"
        "f b < f m" "\<forall>y\<in>set post. f y \<le> f m"
        by blast
      then have "x # xs = (x # pre) @ m # post \<and> (\<forall>y\<in>set (x # pre). f y < f m) \<and>
        f b < f m \<and> (\<forall>y\<in>set post. f y \<le> f m)"
        using False by simp
      with run show ?thesis by blast
    qed
  qed
qed

lemma py_max_key_first:
  assumes ne: "xs \<noteq> []" and keys: "\<forall>y\<in>set xs. keyf y = Some (f y)"
  shows "\<exists>pre m post. xs = pre @ m # post \<and> py_max_key keyf xs = Inr m \<and>
           (\<forall>y\<in>set pre. f y < f m) \<and> (\<forall>y\<in>set post. f y \<le> f m)"
proof -
  from ne obtain b rest where xs: "xs = b # rest" by (cases xs) auto
  from max_loop_first [of b rest keyf f] keys xs
  obtain m where m: "max_loop keyf b (keyf b) rest = Inr m"
    and d: "(m = b \<and> (\<forall>y\<in>set rest. f y \<le> f b)) \<or>
            (\<exists>pre post. rest = pre @ m # post \<and> (\<forall>y\<in>set pre. f y < f m) \<and> f b < f m \<and>
               (\<forall>y\<in>set post. f y \<le> f m))"
    by blast
  have run: "py_max_key keyf xs = Inr m"
    using m xs by (simp add: py_max_key_def)
  from d show ?thesis
  proof
    assume "m = b \<and> (\<forall>y\<in>set rest. f y \<le> f b)"
    then have "xs = [] @ m # rest \<and> (\<forall>y\<in>set []. f y < f m) \<and> (\<forall>y\<in>set rest. f y \<le> f m)"
      using xs by simp
    with run show ?thesis by blast
  next
    assume "\<exists>pre post. rest = pre @ m # post \<and> (\<forall>y\<in>set pre. f y < f m) \<and> f b < f m \<and>
               (\<forall>y\<in>set post. f y \<le> f m)"
    then obtain pre post where p: "rest = pre @ m # post" "\<forall>y\<in>set pre. f y < f m"
        "f b < f m" "\<forall>y\<in>set post. f y \<le> f m"
      by blast
    then have "xs = (b # pre) @ m # post \<and> (\<forall>y\<in>set (b # pre). f y < f m) \<and>
        (\<forall>y\<in>set post. f y \<le> f m)"
      using xs by simp
    with run show ?thesis by blast
  qed
qed

lemma most_common_first:
  assumes "xs \<noteq> []"
  shows "\<exists>pre m post. xs = pre @ m # post \<and> most_common_element xs = Inr m \<and>
           (\<forall>y\<in>set pre. count_list xs y < count_list xs m) \<and>
           (\<forall>y\<in>set post. count_list xs y \<le> count_list xs m)"
proof -
  obtain counts where c: "count_elements xs = Inr counts"
    "\<forall>x. counts x = (if x \<in> set xs then Some (count_list xs x) else None)"
    using count_elements_ok by blast
  then have "\<forall>y\<in>set xs. counts y = Some (count_list xs y)" by simp
  from py_max_key_first [OF assms this] c(1) show ?thesis
    by (simp add: most_common_element_def)
qed

lemma first_occurrence_split:
  assumes "xs = pre @ m # post" and "m \<notin> set pre"
  shows "first_occurrence xs m = length pre"
proof -
  have "takeWhile (\<lambda>y. y \<noteq> m) (pre @ m # post) = pre @ takeWhile (\<lambda>y. y \<noteq> m) (m # post)"
    using assms(2) by (intro takeWhile_append2) auto
  then show ?thesis
    using assms(1) by (simp add: first_occurrence_def)
qed

lemma first_occurrence_later:
  assumes "xs = pre @ m # post" and "w \<notin> set pre" and "w \<noteq> m"
  shows "length pre < first_occurrence xs w"
proof -
  have "takeWhile (\<lambda>y. y \<noteq> w) (pre @ m # post) = pre @ takeWhile (\<lambda>y. y \<noteq> w) (m # post)"
    using assms(2) by (intro takeWhile_append2) auto
  then show ?thesis
    using assms(1) assms(3) by (simp add: first_occurrence_def)
qed

subsection \<open>The majority selector\<close>

text \<open>
  Claim C4. For every non-empty candidate sequence \<^verbatim>\<open>most_common_element\<close> raises nothing
  and returns a value that occurs in the sequence and whose tally is at least the tally
  of every value; so when one value has a strictly highest tally, that value is returned.
  The result is a function of the sequence alone.
\<close>

theorem most_common_element_majority:
  assumes "xs \<noteq> []"
  shows "\<exists>m. most_common_element xs = Inr m \<and> m \<in> set xs \<and>
           (\<forall>y. count_list xs y \<le> count_list xs m) \<and>
           (\<forall>v. (\<forall>y. y \<noteq> v \<longrightarrow> count_list xs y < count_list xs v) \<longrightarrow> m = v)"
proof -
  from most_common_first [OF assms]
  obtain pre m post where d: "xs = pre @ m # post" "most_common_element xs = Inr m"
    "\<forall>y\<in>set pre. count_list xs y < count_list xs m"
    "\<forall>y\<in>set post. count_list xs y \<le> count_list xs m"
    by blast
  have mem: "m \<in> set xs" using d(1) by simp
  have top: "count_list xs y \<le> count_list xs m" for y
  proof (cases "y \<in> set xs")
    case True
    with d(1) have "y \<in> set pre \<or> y = m \<or> y \<in> set post" by auto
    with d(3) d(4) show ?thesis by (auto intro: less_imp_le)
  next
    case False
    then have "count_list xs y = 0" by (simp add: count_list_0_iff)
    then show ?thesis by simp
  qed
  have "m = v" if v: "\<forall>y. y \<noteq> v \<longrightarrow> count_list xs y < count_list xs v" for v
  proof (rule ccontr)
    assume "m \<noteq> v"
    with v have "count_list xs m < count_list xs v" by simp
    with top [of v] show False by simp
  qed
  with d(2) mem top show ?thesis by blast
qed

theorem most_common_element_majority_witness:
  "[3, 7, 7, 3, 7 :: nat] \<noteq> [] \<and>
   (\<exists>m. most_common_element [3, 7, 7, 3, 7] = Inr m \<and> m \<in> set [3, 7, 7, 3, 7 :: nat] \<and>
      count_list [3, 7, 7, 3, 7 :: nat] 3 \<le> count_list [3, 7, 7, 3, 7 :: nat] m)"
proof -
  have ne: "[3, 7, 7, 3, 7 :: nat] \<noteq> []" by simp
  from most_common_element_majority [OF ne] ne show ?thesis by blast
qed

lemma most_common_element_37755: "most_common_element [3, 7, 7, 5, 5] = Inr 7"
  by (simp add: most_common_element_def count_elements_def zero_counts_def count_bump_def
        py_max_key_def py_gt_def)

text \<open>
  Claim C10. On a non-empty sequence \<^verbatim>\<open>most_common_element\<close> returns a value of the
  sequence with the highest tally, and when several values share the highest tally it
  returns the one that occurs first in the sequence: every other value whose tally is not
  below the tally of the result has its first occurrence later. The witness is the
  sequence \<open>[3, 7, 7, 5, 5]\<close>: 7 and 5 share the highest tally, and the result is 7, which
  occurs before 5, and neither the first item 3 nor the lowest tied value 5.
\<close>

theorem most_common_element_first_wins:
  assumes "xs \<noteq> []"
  shows "\<exists>m. most_common_element xs = Inr m \<and> m \<in> set xs \<and>
           (\<forall>y. count_list xs y \<le> count_list xs m) \<and>
           (\<forall>w\<in>set xs. w \<noteq> m \<and> count_list xs m \<le> count_list xs w \<longrightarrow>
              first_occurrence xs m < first_occurrence xs w)"
proof -
  from most_common_first [OF assms]
  obtain pre m post where d: "xs = pre @ m # post" "most_common_element xs = Inr m"
    "\<forall>y\<in>set pre. count_list xs y < count_list xs m"
    "\<forall>y\<in>set post. count_list xs y \<le> count_list xs m"
    by blast
  have mem: "m \<in> set xs" using d(1) by simp
  have top: "count_list xs y \<le> count_list xs m" for y
  proof (cases "y \<in> set xs")
    case True
    with d(1) have "y \<in> set pre \<or> y = m \<or> y \<in> set post" by auto
    with d(3) d(4) show ?thesis by (auto intro: less_imp_le)
  next
    case False
    then have "count_list xs y = 0" by (simp add: count_list_0_iff)
    then show ?thesis by simp
  qed
  have "m \<notin> set pre" using d(3) by auto
  from first_occurrence_split [OF d(1) this]
  have fm: "first_occurrence xs m = length pre" .
  have "first_occurrence xs m < first_occurrence xs w"
    if w: "w \<noteq> m" "count_list xs m \<le> count_list xs w" for w
  proof -
    have "w \<notin> set pre" using d(3) w(2) by auto
    from first_occurrence_later [OF d(1) this w(1)] fm show ?thesis by simp
  qed
  with d(2) mem top show ?thesis by blast
qed

theorem most_common_element_first_wins_witness:
  "[3, 7, 7, 5, 5 :: nat] \<noteq> [] \<and> most_common_element [3, 7, 7, 5, 5] = Inr 7 \<and>
   count_list [3, 7, 7, 5, 5 :: nat] 3 < count_list [3, 7, 7, 5, 5 :: nat] 7 \<and>
   count_list [3, 7, 7, 5, 5 :: nat] 5 = count_list [3, 7, 7, 5, 5 :: nat] 7 \<and>
   first_occurrence [3, 7, 7, 5, 5] 7 < first_occurrence [3, 7, 7, 5, 5] 5 \<and>
   (5 :: nat) < 7"
proof -
  have ne: "[3, 7, 7, 5, 5 :: nat] \<noteq> []" by simp
  from most_common_element_first_wins [OF ne] most_common_element_37755
  have "\<forall>w\<in>set [3, 7, 7, 5, 5 :: nat].
          w \<noteq> 7 \<and> count_list [3, 7, 7, 5, 5 :: nat] 7 \<le> count_list [3, 7, 7, 5, 5 :: nat] w \<longrightarrow>
          first_occurrence [3, 7, 7, 5, 5] 7 < first_occurrence [3, 7, 7, 5, 5] w"
    by simp
  then have "first_occurrence [3, 7, 7, 5, 5] 7 < first_occurrence [3, 7, 7, 5, 5] 5"
    by simp
  with most_common_element_37755 show ?thesis by simp
qed

section \<open>Properties of \<^verbatim>\<open>test_key\<close>\<close>

lemma length_le_digits: "length (le_digits k n) = k"
  by (induction k arbitrary: n) simp_all

lemma le_digits_bytes: "\<forall>b\<in>set (le_digits k n). b < 256"
  by (induction k arbitrary: n) simp_all

lemma le_value_digits: "le_value (le_digits k n) = n mod 256 ^ k"
proof (induction k arbitrary: n)
  case 0
  show ?case by simp
next
  case (Suc k)
  have "n mod (256 * 256 ^ k) = 256 * (n div 256 mod 256 ^ k) + n mod 256"
    by (rule mod_mult2_eq)
  with Suc show ?case by simp
qed

lemma to_bytes_little_Inr:
  assumes "to_bytes_little n len = Inr bs"
  shows "0 \<le> len \<and> 0 \<le> n \<and> n < 256 ^ nat len \<and> length bs = nat len \<and>
         (\<forall>b\<in>set bs. b < 256) \<and> int (le_value bs) = n"
proof -
  from assms have c: "0 \<le> len" "0 \<le> n" "n < 256 ^ nat len"
    and bs: "bs = le_digits (nat len) (nat n)"
    by (auto simp: to_bytes_little_def split: if_splits)
  from c(2) c(3) have "nat n < 256 ^ nat len"
    by (simp add: nat_less_iff)
  then have "le_value bs = nat n"
    by (simp add: bs le_value_digits)
  with c bs show ?thesis
    by (simp add: length_le_digits le_digits_bytes)
qed

lemma to_bytes_little_Inl_iff:
  "(\<exists>e. to_bytes_little n len = Inl e) \<longleftrightarrow> len < 0 \<or> n < 0 \<or> 256 ^ nat len \<le> n"
  by (auto simp: to_bytes_little_def)

lemma length_rc4_generate: "length (rc4_generate S i j ps) = length ps"
  by (induction ps arbitrary: S i j) (simp_all add: Let_def)

lemma to_bytes_little_3_1: "to_bytes_little 3 1 = Inr [3]"
  by code_simp

lemma test_key_try_example:
  "test_key_try arc4_update [1, 2] 3 1 [4, 5] [10, 20]
     (rc4_generate (rc4_key_schedule [1, 2, 3, 4, 5]) 0 0 [10, 20]) = Inr True"
  by (simp add: test_key_try_def to_bytes_little_3_1 arc4_update_def del: rc4_generate.simps)

subsection \<open>What \<^verbatim>\<open>test_key\<close> decides\<close>

text \<open>
  Claim C6. Whenever the body of \<^verbatim>\<open>test_key\<close> raises nothing, the counter has been encoded
  as \<open>counter_size\<close> bytes, least significant first (the bytes are below 256 and encode
  the counter), the cipher has been run with the key \<open>nonce + counter bytes + key\<close> on the
  plaintext, and \<^verbatim>\<open>test_key\<close> is true exactly when the ciphertext it returned equals the
  expected ciphertext. This holds for any cipher, RC4 among them.
\<close>

theorem test_key_compares_ciphertext:
  assumes "test_key_try arc4 nonce counter counter_size key plaintext expected_ciphertext
             = Inr verified"
  shows "\<exists>counter_bytes ciphertext.
           length counter_bytes = nat counter_size \<and> 0 \<le> counter_size \<and>
           (\<forall>b\<in>set counter_bytes. b < 256) \<and> int (le_value counter_bytes) = counter \<and>
           arc4 (nonce @ counter_bytes @ key) plaintext = Inr ciphertext \<and>
           (test_key arc4 nonce counter counter_size key plaintext expected_ciphertext
              \<longleftrightarrow> ciphertext = expected_ciphertext)"
proof -
  from assms obtain cb where cb: "to_bytes_little counter counter_size = Inr cb"
    by (auto simp: test_key_try_def split: sum.splits)
  with assms obtain ct where ct: "arc4 (nonce @ cb @ key) plaintext = Inr ct"
    and v: "verified = (ct = expected_ciphertext)"
    by (auto simp: test_key_try_def split: sum.splits)
  have "test_key arc4 nonce counter counter_size key plaintext expected_ciphertext
          \<longleftrightarrow> ct = expected_ciphertext"
    using assms v by (simp add: test_key_def)
  with to_bytes_little_Inr [OF cb] ct show ?thesis by blast
qed

theorem test_key_compares_ciphertext_witness:
  "test_key_try arc4_update [1, 2] 3 1 [4, 5] [10, 20]
     (rc4_generate (rc4_key_schedule [1, 2, 3, 4, 5]) 0 0 [10, 20]) = Inr True \<and>
   test_key arc4_update [1, 2] 3 1 [4, 5] [10, 20]
     (rc4_generate (rc4_key_schedule [1, 2, 3, 4, 5]) 0 0 [10, 20]) \<and>
   \<not> test_key arc4_update [1, 2] 3 1 [4, 5] [10, 20] [10]"
proof -
  obtain cb ct where a: "length cb = nat 1" "\<forall>b\<in>set cb. b < 256" "int (le_value cb) = 3"
    "arc4_update ([1, 2] @ cb @ [4, 5]) [10, 20] = Inr ct"
    "test_key arc4_update [1, 2] 3 1 [4, 5] [10, 20]
       (rc4_generate (rc4_key_schedule [1, 2, 3, 4, 5]) 0 0 [10, 20])
     \<longleftrightarrow> ct = rc4_generate (rc4_key_schedule [1, 2, 3, 4, 5]) 0 0 [10, 20]"
    using test_key_compares_ciphertext [OF test_key_try_example] by blast
  have t: "test_key arc4_update [1, 2] 3 1 [4, 5] [10, 20]
     (rc4_generate (rc4_key_schedule [1, 2, 3, 4, 5]) 0 0 [10, 20])"
    using test_key_try_example by (simp add: test_key_def)
  have "length (rc4_generate (rc4_key_schedule [1, 2, 3, 4, 5]) 0 0 [10, 20]) \<noteq> length [10 :: nat]"
    by (simp add: length_rc4_generate del: rc4_generate.simps)
  then have "rc4_generate (rc4_key_schedule [1, 2, 3, 4, 5]) 0 0 [10, 20] \<noteq> [10]"
    by auto
  then have f: "\<not> test_key arc4_update [1, 2] 3 1 [4, 5] [10, 20] [10]"
    by (simp add: test_key_def test_key_try_def to_bytes_little_3_1 arc4_update_def
          del: rc4_generate.simps)
  from test_key_try_example t f show ?thesis by simp
qed

lemma to_bytes_little_5_3: "to_bytes_little 5 3 = Inr [5, 0, 0]"
  by code_simp

lemma to_bytes_little_999_1: "to_bytes_little 999 1 = Inl OverflowError"
  by code_simp

text \<open>
  Claim C7. \<^verbatim>\<open>test_key\<close> returns a truth value on every input. Its body raises exactly
  when the counter does not fit (a negative size, a negative counter, a counter of
  \<open>256 ^ counter_size\<close> or more) or when the cipher raises on the key and the plaintext;
  whenever the body raises, whatever the exception, \<^verbatim>\<open>test_key\<close> returns \<^verbatim>\<open>False\<close>.
\<close>

theorem test_key_failure_is_False:
  "((\<exists>e. test_key_try arc4 nonce counter counter_size key plaintext expected_ciphertext = Inl e)
      \<longleftrightarrow> counter_size < 0 \<or> counter < 0 \<or> 256 ^ nat counter_size \<le> counter \<or>
          (\<exists>counter_bytes e. to_bytes_little counter counter_size = Inr counter_bytes \<and>
              arc4 (nonce @ counter_bytes @ key) plaintext = Inl e)) \<and>
   ((\<exists>e. test_key_try arc4 nonce counter counter_size key plaintext expected_ciphertext = Inl e)
      \<longrightarrow> test_key arc4 nonce counter counter_size key plaintext expected_ciphertext = False)"
proof (intro conjI impI)
  show "(\<exists>e. test_key_try arc4 nonce counter counter_size key plaintext expected_ciphertext = Inl e)
      \<longleftrightarrow> counter_size < 0 \<or> counter < 0 \<or> 256 ^ nat counter_size \<le> counter \<or>
          (\<exists>counter_bytes e. to_bytes_little counter counter_size = Inr counter_bytes \<and>
              arc4 (nonce @ counter_bytes @ key) plaintext = Inl e)"
  proof (cases "to_bytes_little counter counter_size")
    case (Inl e)
    then have "counter_size < 0 \<or> counter < 0 \<or> 256 ^ nat counter_size \<le> counter"
      using to_bytes_little_Inl_iff by blast
    with Inl show ?thesis by (simp add: test_key_try_def)
  next
    case (Inr cb)
    then have "\<not> (counter_size < 0 \<or> counter < 0 \<or> 256 ^ nat counter_size \<le> counter)"
      using to_bytes_little_Inl_iff [of counter counter_size] by simp
    with Inr show ?thesis
      by (auto simp: test_key_try_def split: sum.splits)
  qed
next
  assume "\<exists>e. test_key_try arc4 nonce counter counter_size key plaintext expected_ciphertext = Inl e"
  then show "test_key arc4 nonce counter counter_size key plaintext expected_ciphertext = False"
    by (auto simp: test_key_def)
qed

theorem test_key_failure_is_False_witness:
  "test_key_try arc4_update (replicate 16 0) 999 1 [] [1, 2] [3, 4] = Inl OverflowError \<and>
   test_key arc4_update (replicate 16 0) 999 1 [] [1, 2] [3, 4] = False \<and>
   test_key_try arc4_update (replicate 16 0) 5 3 [] [1, 2] [3, 4] = Inl ValueError \<and>
   test_key arc4_update (replicate 16 0) 5 3 [] [1, 2] [3, 4] = False"
proof -
  have a: "test_key_try arc4_update (replicate 16 0) 999 1 [] [1, 2] [3, 4] = Inl OverflowError"
    by (simp add: test_key_try_def to_bytes_little_999_1)
  have b: "test_key_try arc4_update (replicate 16 0) 5 3 [] [1, 2] [3, 4] = Inl ValueError"
    by (simp add: test_key_try_def to_bytes_little_5_3 arc4_update_def)
  from a b
    test_key_failure_is_False [of arc4_update "replicate 16 0" 999 1 "[]" "[1, 2]" "[3, 4]"]
    test_key_failure_is_False [of arc4_update "replicate 16 0" 5 3 "[]" "[1, 2]" "[3, 4]"]
  show ?thesis by simp
qed

section \<open>Properties of the recovery loop\<close>

lemma most_common_element_Nil: "most_common_element [] = Inl ValueError"
  by (simp add: most_common_element_def count_elements_def py_max_key_def)

lemma most_common_element_Inr: "xs \<noteq> [] \<Longrightarrow> \<exists>b. most_common_element xs = Inr b"
  using most_common_first by blast

lemma round_candidates_length:
  assumes "round_candidates nonce key samples = Inr cs"
  shows "length cs = length samples"
proof -
  from assms have "for_each (round_body nonce key) samples [] = Inr cs"
    by (simp add: round_candidates_body)
  from round_loop_Inr [OF this] show ?thesis
    by (auto dest: list_all2_lengthD)
qed

lemma recovery_round_Inr_iff:
  "(\<exists>b. recovery_round nonce samples key = Inr b) \<longleftrightarrow>
     samples \<noteq> [] \<and> (\<forall>smp\<in>set samples. sample_in_range nonce key smp)"
proof (cases "round_candidates nonce key samples")
  case (Inl e)
  then have "\<not> (\<forall>smp\<in>set samples. sample_in_range nonce key smp)"
    using round_candidates_Inr_iff [of nonce key samples] by simp
  with Inl show ?thesis by (simp add: recovery_round_def)
next
  case (Inr cs)
  then have all: "\<forall>smp\<in>set samples. sample_in_range nonce key smp"
    using round_candidates_Inr_iff [of nonce key samples] by blast
  from Inr have len: "length cs = length samples" by (rule round_candidates_length)
  show ?thesis
  proof (cases "samples = []")
    case True
    with len have "cs = []" by simp
    with Inr True show ?thesis
      by (simp add: recovery_round_def most_common_element_Nil)
  next
    case False
    with len have "cs \<noteq> []" by auto
    from most_common_element_Inr [OF this] Inr False all show ?thesis
      by (simp add: recovery_round_def)
  qed
qed

lemma recovery_round_error:
  assumes "recovery_round nonce samples key = Inl e"
  shows "(e = ValueError \<and> samples = []) \<or>
         (e = IndexError \<and> (\<exists>smp\<in>set samples. \<not> sample_in_range nonce key smp))"
proof (cases "round_candidates nonce key samples")
  case (Inl e')
  with assms have "e' = e" by (simp add: recovery_round_def)
  with round_candidates_error [OF Inl] show ?thesis by simp
next
  case (Inr cs)
  from Inr have len: "length cs = length samples" by (rule round_candidates_length)
  have "cs = []"
  proof (rule ccontr)
    assume "cs \<noteq> []"
    from most_common_element_Inr [OF this] Inr assms show False
      by (simp add: recovery_round_def)
  qed
  with len Inr assms show ?thesis
    by (simp add: recovery_round_def most_common_element_Nil)
qed

lemma recovery_round_bound:
  assumes "recovery_round nonce samples key = Inr b"
  shows "length key < 256"
proof -
  from assms have ne: "samples \<noteq> []"
    and all: "\<forall>smp\<in>set samples. sample_in_range nonce key smp"
    using recovery_round_Inr_iff [of nonce samples key] by blast+
  from ne obtain smp where "smp \<in> set samples" by (cases samples) auto
  with all have "sample_in_range nonce key smp" by blast
  then show ?thesis
    by (cases smp) (simp add: sample_in_range_def)
qed

lemma recovery_loop_run:
  "\<exists>ext r. recovery_loop verify nonce samples key logged = Some (logged @ ext, r) \<and>
     round_chain nonce samples key ext \<and>
     (\<forall>k\<in>set (butlast (key # ext)). \<not> verify k) \<and>
     (case r of
        Inr kf \<Rightarrow> kf = last (key # ext) \<and> verify kf
      | Inl e \<Rightarrow> \<not> verify (last (key # ext)) \<and>
                 recovery_round nonce samples (last (key # ext)) = Inl e)"
proof (induction "256 - length key" arbitrary: key logged rule: less_induct)
  case less
  show ?case
  proof (cases "verify key")
    case True
    then have "recovery_loop verify nonce samples key logged = Some (logged @ [], Inr key)"
      by (subst recovery_loop.simps) simp
    moreover have "round_chain nonce samples key []" by simp
    ultimately show ?thesis using True
      by (intro exI [of _ "[]"] exI [of _ "Inr key"]) simp
  next
    case False
    show ?thesis
    proof (cases "recovery_round nonce samples key")
      case (Inl e)
      with False have "recovery_loop verify nonce samples key logged = Some (logged @ [], Inl e)"
        by (subst recovery_loop.simps) simp
      then show ?thesis using False Inl
        by (intro exI [of _ "[]"] exI [of _ "Inl e"]) simp
    next
      case (Inr b)
      let ?k = "key @ [b]"
      from recovery_round_bound [OF Inr] have "256 - length ?k < 256 - length key"
        by simp
      from less [OF this, of "logged @ [?k]"]
      obtain ext r where run: "recovery_loop verify nonce samples ?k (logged @ [?k])
            = Some ((logged @ [?k]) @ ext, r)"
        and chain: "round_chain nonce samples ?k ext"
        and rej: "\<forall>k\<in>set (butlast (?k # ext)). \<not> verify k"
        and fin: "(case r of
            Inr kf \<Rightarrow> kf = last (?k # ext) \<and> verify kf
          | Inl e \<Rightarrow> \<not> verify (last (?k # ext)) \<and>
                 recovery_round nonce samples (last (?k # ext)) = Inl e)"
        by blast
      have "recovery_loop verify nonce samples key logged = Some (logged @ (?k # ext), r)"
        using False Inr run by (subst recovery_loop.simps) simp
      moreover have "round_chain nonce samples key (?k # ext)"
        using Inr chain by simp
      moreover have "\<forall>k\<in>set (butlast (key # ?k # ext)). \<not> verify k"
        using rej False by simp
      moreover have "(case r of
            Inr kf \<Rightarrow> kf = last (key # ?k # ext) \<and> verify kf
          | Inl e \<Rightarrow> \<not> verify (last (key # ?k # ext)) \<and>
                 recovery_round nonce samples (last (key # ?k # ext)) = Inl e)"
        using fin by (cases r) simp_all
      ultimately show ?thesis by blast
    qed
  qed
qed

lemma round_chain_nth:
  "round_chain nonce samples key ext \<Longrightarrow> i < length ext \<Longrightarrow>
     \<exists>b. recovery_round nonce samples ((key # ext) ! i) = Inr b \<and>
         ext ! i = ((key # ext) ! i) @ [b]"
proof (induction ext arbitrary: key i)
  case Nil
  then show ?case by simp
next
  case (Cons k ks)
  from Cons.prems(1) obtain b where b: "recovery_round nonce samples key = Inr b"
    "k = key @ [b]" "round_chain nonce samples k ks"
    by (auto split: sum.splits)
  show ?case
  proof (cases i)
    case 0
    with b show ?thesis by simp
  next
    case (Suc i')
    with Cons.prems(2) have "i' < length ks" by simp
    from Cons.IH [OF b(3) this] Suc show ?thesis by simp
  qed
qed

lemma round_chain_grows:
  "round_chain nonce samples key ext \<Longrightarrow> i < length ext \<Longrightarrow>
     length (ext ! i) = length key + i + 1 \<and>
     (\<forall>k\<le>i. take (length ((key # ext) ! k)) (ext ! i) = (key # ext) ! k)"
proof (induction ext arbitrary: key i)
  case Nil
  then show ?case by simp
next
  case (Cons k ks)
  from Cons.prems(1) obtain b where b: "recovery_round nonce samples key = Inr b"
    "k = key @ [b]" "round_chain nonce samples k ks"
    by (auto split: sum.splits)
  show ?case
  proof (cases i)
    case 0
    with b show ?thesis by simp
  next
    case (Suc i')
    with Cons.prems(2) have i': "i' < length ks" by simp
    from Cons.IH [OF b(3) i']
    have len: "length (ks ! i') = length k + i' + 1"
      and pre: "\<forall>m\<le>i'. take (length ((k # ks) ! m)) (ks ! i') = (k # ks) ! m"
      by simp_all
    have "take (length ((key # k # ks) ! m)) ((k # ks) ! i) = (key # k # ks) ! m" if "m \<le> i" for m
    proof (cases m)
      case 0
      from pre have "take (length k) (ks ! i') = k" by auto
      then have "take (length key) (take (length k) (ks ! i')) = take (length key) k" by simp
      then have "take (length key) (ks ! i') = key"
        using b(2) by (simp add: min_def)
      with 0 Suc show ?thesis by simp
    next
      case (Suc m')
      with that \<open>i = Suc i'\<close> have "m' \<le> i'" by simp
      with pre have "take (length ((k # ks) ! m')) (ks ! i') = (k # ks) ! m'" by blast
      with Suc \<open>i = Suc i'\<close> show ?thesis by simp
    qed
    with len b(2) Suc show ?thesis by simp
  qed
qed

lemma chain_key_length:
  assumes "round_chain nonce samples key ext" and "i \<le> length ext"
  shows "length ((key # ext) ! i) = length key + i"
proof (cases i)
  case 0
  then show ?thesis by simp
next
  case (Suc i')
  with assms(2) have "i' < length ext" by simp
  from round_chain_grows [OF assms(1) this] Suc show ?thesis by simp
qed

lemma chain_rounds_bound:
  assumes "round_chain nonce samples key ext"
  shows "length ext \<le> 256 - length key"
proof (cases ext)
  case Nil
  then show ?thesis by simp
next
  case (Cons k ks)
  then have i: "length ext - 1 < length ext" by simp
  from round_chain_nth [OF assms i]
  obtain b where "recovery_round nonce samples ((key # ext) ! (length ext - 1)) = Inr b"
    by blast
  then have "length ((key # ext) ! (length ext - 1)) < 256"
    by (rule recovery_round_bound)
  moreover have "length ((key # ext) ! (length ext - 1)) = length key + (length ext - 1)"
    using chain_key_length [OF assms, of "length ext - 1"] by simp
  ultimately show ?thesis by simp
qed

lemma test_key_arc4_length:
  assumes "length expected_ciphertext \<noteq> length plaintext"
  shows "\<not> test_key arc4_update nonce counter counter_size key plaintext expected_ciphertext"
proof (cases "to_bytes_little counter counter_size")
  case (Inl e)
  then show ?thesis by (simp add: test_key_def test_key_try_def)
next
  case (Inr cb)
  show ?thesis
  proof (cases "arc4_update (nonce @ cb @ key) plaintext")
    case (Inl e)
    with Inr show ?thesis by (simp add: test_key_def test_key_try_def)
  next
    case ct: (Inr ct)
    then have "length ct = length plaintext"
      by (auto simp: arc4_update_def length_rc4_generate split: if_splits)
    with assms have "ct \<noteq> expected_ciphertext" by auto
    with Inr ct show ?thesis by (simp add: test_key_def test_key_try_def)
  qed
qed

lemma last_Cons_nth: "last (x # xs) = (x # xs) ! length xs"
  using last_conv_nth [of "x # xs"] by simp

lemma sample_candidate_first_round: "sample_candidate [] [] ([0], 6 # rest) = Inr 250"
  by (simp add: sample_candidate_def known_bytes_of_def simulate_ksa_one_zero
        extract_candidate_def py_index_int_def py_index_def next_S_i_of_def
        find_pre_i_identity key_byte_of_def)

lemma most_common_element_single: "most_common_element [250] = Inr 250"
  by (simp add: most_common_element_def count_elements_def zero_counts_def count_bump_def
        py_max_key_def)

lemma recovery_round_first: "recovery_round [] [([0], [6])] [] = Inr 250"
  by (simp add: recovery_round_def round_candidates_def round_body_def
        sample_candidate_first_round most_common_element_single)

lemma recovery_round_second: "recovery_round [] [([0], [6])] [250] = Inl IndexError"
proof -
  have "\<not> sample_in_range [] [250] ([0], [6])"
    by (simp add: sample_in_range_def)
  then have "\<not> (\<exists>b. recovery_round [] [([0], [6])] [250] = Inr b)"
    using recovery_round_Inr_iff [of "[]" "[([0], [6])]" "[250]"] by simp
  then obtain e where e: "recovery_round [] [([0], [6])] [250] = Inl e"
    by (cases "recovery_round [] [([0], [6])] [250]") auto
  from recovery_round_error [OF e] e show ?thesis by simp
qed

lemma recovery_loop_example:
  assumes "\<not> verify []" and "\<not> verify [250]"
  shows "recovery_loop verify [] [([0], [6])] [] [] = Some ([[250]], Inl IndexError)"
proof -
  have "recovery_loop verify [] [([0], [6])] [250] [[250]] = Some ([[250]], Inl IndexError)"
    using assms(2) by (subst recovery_loop.simps) (simp add: recovery_round_second)
  then show ?thesis
    using assms(1) by (subst recovery_loop.simps) (simp add: recovery_round_first)
qed

lemma butlast_Cons_nth:
  "i < length ext \<Longrightarrow> (key # ext) ! i \<in> set (butlast (key # ext))"
proof -
  assume i: "i < length ext"
  have len: "length (butlast (key # ext)) = length ext"
    by (simp only: length_butlast length_Cons diff_Suc_1)
  with i have i': "i < length (butlast (key # ext))" by simp
  then have "butlast (key # ext) ! i \<in> set (butlast (key # ext))" by (rule nth_mem)
  moreover have "butlast (key # ext) ! i = (key # ext) ! i"
    using i' by (rule nth_butlast)
  ultimately show ?thesis by (simp only:)
qed

lemma recovery_loop_success_example:
  assumes "\<not> verify []" and "verify [250]"
  shows "recovery_loop verify [] [([0], [6])] [] [] = Some ([[250]], Inr [250])"
proof -
  have "recovery_loop verify [] [([0], [6])] [250] [[250]] = Some ([[250]], Inr [250])"
    using assms(2) by (subst recovery_loop.simps) simp
  then show ?thesis
    using assms(1) by (subst recovery_loop.simps) (simp add: recovery_round_first)
qed

lemma test_key_example_reject:
  "\<not> test_key arc4_update [1, 2, 3] 3 1 [] [10, 20]
       (rc4_generate (rc4_key_schedule [1, 2, 3, 3, 250]) 0 0 [10, 20])"
  by (simp add: test_key_def test_key_try_def to_bytes_little_3_1 arc4_update_def
        del: rc4_generate.simps)

lemma test_key_example_accept:
  "test_key arc4_update [1, 2, 3] 3 1 [250] [10, 20]
     (rc4_generate (rc4_key_schedule [1, 2, 3, 3, 250]) 0 0 [10, 20])"
  by (simp add: test_key_def test_key_try_def to_bytes_little_3_1 arc4_update_def
        del: rc4_generate.simps)

subsection \<open>The end of the recovery loop\<close>

text \<open>
  Claim C3 says that the loop stops with a reported failure once the key is longer than
  the configured \<^verbatim>\<open>key_size\<close>. The loop never reads \<^verbatim>\<open>key_size\<close> (\<^verbatim>\<open>attack\<close> does not take
  it). With the default sizes (a nonce of 16 bytes, counters of 3 bytes, blocks of 48
  bytes, \<^verbatim>\<open>key_size\<close> 13) and a test vector that no key verifies (here the expected
  ciphertext is empty), the loop completes 30 rounds, so it goes on with keys of 14 to 30
  bytes, and ends with the \<^verbatim>\<open>IndexError\<close> of \<^verbatim>\<open>keystream[48]\<close>.
\<close>

theorem attack_runs_past_key_size:
  "rounds_and_outcome
     (attack_recover arc4_update (replicate 16 0) 7 3 (replicate 48 1) []
        (replicate 16 0) [([0, 0, 0], replicate 48 0)])
   = Some (30, Inl IndexError)"
proof -
  let ?verify = "\<lambda>key. test_key arc4_update (replicate 16 0) 7 3 key (replicate 48 1) []"
  let ?nonce = "replicate 16 (0 :: nat)"
  let ?samples = "[([0, 0, 0 :: nat], replicate 48 (0 :: nat))]"
  have rej: "\<not> ?verify k" for k
    by (rule test_key_arc4_length) simp
  from recovery_loop_run [of ?verify ?nonce ?samples "[]" "[]"]
  obtain ext r where run: "recovery_loop ?verify ?nonce ?samples [] [] = Some (ext, r)"
    and chain: "round_chain ?nonce ?samples [] ext"
    and fin: "(case r of
        Inr kf \<Rightarrow> kf = last ([] # ext) \<and> ?verify kf
      | Inl e \<Rightarrow> \<not> ?verify (last ([] # ext)) \<and>
                 recovery_round ?nonce ?samples (last ([] # ext)) = Inl e)"
    by auto
  from fin rej obtain e where r: "r = Inl e"
    and e: "recovery_round ?nonce ?samples (last ([] # ext)) = Inl e"
    by (cases r) auto
  have range: "sample_in_range ?nonce k ([0, 0, 0], replicate 48 0) \<longleftrightarrow> length k \<le> 29" for k
    by (auto simp: sample_in_range_def)
  have "last ([] # ext) = ([] # ext) ! length ext"
    by (rule last_Cons_nth)
  then have lastlen: "length (last ([] # ext)) = length ext"
    using chain_key_length [OF chain, of "length ext"] by simp
  from recovery_round_error [OF e] have eq: "e = IndexError"
    and "\<not> sample_in_range ?nonce (last ([] # ext)) ([0, 0, 0], replicate 48 0)"
    by auto
  then have lower: "30 \<le> length ext"
    unfolding range lastlen by simp
  have upper: "length ext \<le> 30"
  proof (rule ccontr)
    assume "\<not> length ext \<le> 30"
    then have i: "30 < length ext" by simp
    from round_chain_nth [OF chain i]
    obtain b where "recovery_round ?nonce ?samples (([] # ext) ! 30) = Inr b" by blast
    then have "sample_in_range ?nonce (([] # ext) ! 30) ([0, 0, 0], replicate 48 0)"
      using recovery_round_Inr_iff [of ?nonce ?samples "([] # ext) ! 30"] by auto
    then have "length (([] # ext) ! 30) \<le> 29" unfolding range .
    moreover have "length (([] # ext) ! 30) = 30"
      using chain_key_length [OF chain, of 30] i by simp
    ultimately show False by simp
  qed
  from lower upper have "length ext = 30" by simp
  with run r eq show ?thesis
    by (simp add: attack_recover_def rounds_and_outcome_def)
qed

text \<open>
  Claim C3, amended. The recovery loop ends on every input, after at most
  \<open>256 - len(key)\<close> rounds, and \<^verbatim>\<open>key_size\<close> plays no part. Every round it completes is
  run on a key the verifier has rejected and appends the byte that round chose. The loop
  returns the current key when the verifier accepts it (at once, with no round, when the
  verifier accepts the starting key). Otherwise it ends with the exception that the round
  on the current key raises: \<^verbatim>\<open>ValueError\<close> when there is no sample, and \<^verbatim>\<open>IndexError\<close>
  when there are samples and one of them is out of range for that key (256 known bytes or
  more, or a keystream that is empty or shorter than the known bytes).
\<close>

theorem recovery_loop_terminates:
  "\<exists>ext r. recovery_loop verify nonce samples key logged = Some (logged @ ext, r) \<and>
     (\<forall>i<length ext.
        \<not> verify ((key # ext) ! i) \<and>
        (\<exists>b. recovery_round nonce samples ((key # ext) ! i) = Inr b \<and>
             ext ! i = ((key # ext) ! i) @ [b])) \<and>
     (case r of
        Inr k \<Rightarrow> k = last (key # ext) \<and> verify k
      | Inl e \<Rightarrow>
          \<not> verify (last (key # ext)) \<and>
          recovery_round nonce samples (last (key # ext)) = Inl e \<and>
          ((e = ValueError \<and> samples = []) \<or>
           (e = IndexError \<and> samples \<noteq> [] \<and>
            (\<exists>smp\<in>set samples. \<not> sample_in_range nonce (last (key # ext)) smp)))) \<and>
     (verify key \<longrightarrow> ext = [] \<and> r = Inr key) \<and>
     length ext \<le> 256 - length key"
proof -
  from recovery_loop_run [of verify nonce samples key logged]
  obtain ext r where run: "recovery_loop verify nonce samples key logged = Some (logged @ ext, r)"
    and chain: "round_chain nonce samples key ext"
    and rej: "\<forall>k\<in>set (butlast (key # ext)). \<not> verify k"
    and fin: "(case r of
        Inr kf \<Rightarrow> kf = last (key # ext) \<and> verify kf
      | Inl e \<Rightarrow> \<not> verify (last (key # ext)) \<and>
                 recovery_round nonce samples (last (key # ext)) = Inl e)"
    by blast
  have rounds: "\<not> verify ((key # ext) ! i) \<and>
        (\<exists>b. recovery_round nonce samples ((key # ext) ! i) = Inr b \<and>
             ext ! i = ((key # ext) ! i) @ [b])" if i: "i < length ext" for i
    using round_chain_nth [OF chain i] butlast_Cons_nth [OF i, of key] rej by blast
  have out: "(case r of
        Inr k \<Rightarrow> k = last (key # ext) \<and> verify k
      | Inl e \<Rightarrow>
          \<not> verify (last (key # ext)) \<and>
          recovery_round nonce samples (last (key # ext)) = Inl e \<and>
          ((e = ValueError \<and> samples = []) \<or>
           (e = IndexError \<and> samples \<noteq> [] \<and>
            (\<exists>smp\<in>set samples. \<not> sample_in_range nonce (last (key # ext)) smp))))"
  proof (cases r)
    case (Inl e)
    with fin have nv: "\<not> verify (last (key # ext))"
      and e: "recovery_round nonce samples (last (key # ext)) = Inl e"
      by simp_all
    from recovery_round_error [OF e]
    have "(e = ValueError \<and> samples = []) \<or>
           (e = IndexError \<and> samples \<noteq> [] \<and>
            (\<exists>smp\<in>set samples. \<not> sample_in_range nonce (last (key # ext)) smp))"
      by auto
    with Inl nv e show ?thesis by simp
  next
    case (Inr k)
    with fin show ?thesis by auto
  qed
  have first: "ext = [] \<and> r = Inr key" if "verify key"
    using that run by (subst (asm) recovery_loop.simps) simp
  from run rounds out first chain_rounds_bound [OF chain] show ?thesis by blast
qed

theorem recovery_loop_terminates_witness:
  "recovery_loop
     (\<lambda>key. test_key arc4_update [1, 2, 3] 3 1 key [10, 20]
               (rc4_generate (rc4_key_schedule [1, 2, 3, 3, 250]) 0 0 [10, 20]))
     [] [([0], [6])] [] [] = Some ([[250]], Inr [250]) \<and>
   recovery_round [] [([0], [6])] [] = Inr 250 \<and>
   recovery_loop (\<lambda>key. test_key arc4_update [] 7 3 key [1] []) [] [([0], [6])] [] []
     = Some ([[250]], Inl IndexError) \<and>
   recovery_round [] [([0], [6])] [250] = Inl IndexError \<and>
   \<not> sample_in_range [] [250] ([0], [6])"
proof -
  let ?accept = "\<lambda>key. test_key arc4_update [1, 2, 3] 3 1 key [10, 20]
               (rc4_generate (rc4_key_schedule [1, 2, 3, 3, 250]) 0 0 [10, 20])"
  let ?reject = "\<lambda>key. test_key arc4_update [] 7 3 key [1] []"
  have a: "recovery_loop ?accept [] [([0], [6])] [] [] = Some ([[250]], Inr [250])"
    by (rule recovery_loop_success_example)
       (simp_all only: test_key_example_reject test_key_example_accept not_False_eq_True)
  have rej: "\<not> ?reject k" for k
    by (rule test_key_arc4_length) simp
  have b: "recovery_loop ?reject [] [([0], [6])] [] [] = Some ([[250]], Inl IndexError)"
    by (rule recovery_loop_example) (simp_all only: rej not_False_eq_True)
  from recovery_loop_terminates [of ?reject "[]" "[([0], [6])]" "[]" "[]"]
  obtain ext r where run: "recovery_loop ?reject [] [([0], [6])] [] [] = Some ([] @ ext, r)"
    and fin: "(case r of
        Inr k \<Rightarrow> k = last ([] # ext) \<and> ?reject k
      | Inl e \<Rightarrow>
          \<not> ?reject (last ([] # ext)) \<and>
          recovery_round [] [([0], [6])] (last ([] # ext)) = Inl e \<and>
          ((e = ValueError \<and> [([0 :: nat], [6 :: nat])] = []) \<or>
           (e = IndexError \<and> [([0 :: nat], [6 :: nat])] \<noteq> [] \<and>
            (\<exists>smp\<in>set [([0], [6])]. \<not> sample_in_range [] (last ([] # ext)) smp))))"
    by blast
  from run b have ext: "ext = [[250]]" and r: "r = Inl IndexError" by simp_all
  from fin have c: "recovery_round [] [([0], [6])] [250] = Inl IndexError"
    and d: "\<not> sample_in_range [] [250] ([0], [6])"
    unfolding ext r by simp_all
  from a b c d recovery_round_first show ?thesis by simp
qed

subsection \<open>The key only grows\<close>

text \<open>
  Claim C9. In every run of the loop, the key logged after round \<open>i\<close> is the key the round
  started from with one byte appended, the byte chosen by \<^verbatim>\<open>most_common_element\<close> among the
  candidates of that round; it is one byte longer, and every earlier key is a prefix of
  it. The known bytes \<open>nonce + counter + key\<close> of a sample in round \<open>i\<close> number
  \<open>len(nonce) + len(counter) + len(key) + i\<close>, where \<open>key\<close> is the key the loop started from
  (empty in \<^verbatim>\<open>attack\<close>, so that the number is \<open>N + C + i\<close>).
\<close>

theorem key_only_grows:
  "\<exists>ext r. recovery_loop verify nonce samples key logged = Some (logged @ ext, r) \<and>
     (\<forall>i<length ext.
        (\<exists>b. recovery_round nonce samples ((key # ext) ! i) = Inr b \<and>
             ext ! i = ((key # ext) ! i) @ [b]) \<and>
        length (ext ! i) = length key + i + 1 \<and>
        (\<forall>k\<le>i. take (length ((key # ext) ! k)) (ext ! i) = (key # ext) ! k) \<and>
        (\<forall>smp\<in>set samples.
           length (known_bytes_of nonce (fst smp) ((key # ext) ! i))
             = length nonce + length (fst smp) + (length key + i)))"
proof -
  from recovery_loop_run [of verify nonce samples key logged]
  obtain ext r where run: "recovery_loop verify nonce samples key logged = Some (logged @ ext, r)"
    and chain: "round_chain nonce samples key ext"
    by blast
  have "(\<exists>b. recovery_round nonce samples ((key # ext) ! i) = Inr b \<and>
             ext ! i = ((key # ext) ! i) @ [b]) \<and>
        length (ext ! i) = length key + i + 1 \<and>
        (\<forall>k\<le>i. take (length ((key # ext) ! k)) (ext ! i) = (key # ext) ! k) \<and>
        (\<forall>smp\<in>set samples.
           length (known_bytes_of nonce (fst smp) ((key # ext) ! i))
             = length nonce + length (fst smp) + (length key + i))"
    if i: "i < length ext" for i
  proof -
    from i have "i \<le> length ext" by simp
    from chain_key_length [OF chain this]
    have "\<forall>smp\<in>set samples.
           length (known_bytes_of nonce (fst smp) ((key # ext) ! i))
             = length nonce + length (fst smp) + (length key + i)"
      by (simp add: known_bytes_of_def)
    with round_chain_nth [OF chain i] round_chain_grows [OF chain i] show ?thesis
      by blast
  qed
  with run show ?thesis by blast
qed

theorem key_only_grows_witness:
  "recovery_loop (\<lambda>key. test_key arc4_update [] 7 3 key [1] []) [] [([0], [6])] [] []
     = Some ([[250]], Inl IndexError) \<and>
   recovery_round [] [([0], [6])] [] = Inr 250 \<and>
   length (known_bytes_of [] [0] []) = 1"
proof -
  let ?verify = "\<lambda>key. test_key arc4_update [] 7 3 key [1] []"
  have rej: "\<not> ?verify k" for k
    by (rule test_key_arc4_length) simp
  have run: "recovery_loop ?verify [] [([0], [6])] [] [] = Some ([[250]], Inl IndexError)"
    by (rule recovery_loop_example) (simp_all only: rej not_False_eq_True)
  from key_only_grows [of ?verify "[]" "[([0], [6])]" "[]" "[]"]
  obtain ext r where e: "recovery_loop ?verify [] [([0], [6])] [] [] = Some ([] @ ext, r)"
    and p: "\<forall>i<length ext.
        (\<exists>b. recovery_round [] [([0], [6])] (([] # ext) ! i) = Inr b \<and>
             ext ! i = (([] # ext) ! i) @ [b]) \<and>
        length (ext ! i) = length ([] :: nat list) + i + 1 \<and>
        (\<forall>k\<le>i. take (length (([] # ext) ! k)) (ext ! i) = ([] # ext) ! k) \<and>
        (\<forall>smp\<in>set [([0 :: nat], [6 :: nat])].
           length (known_bytes_of [] (fst smp) (([] # ext) ! i))
             = length ([] :: nat list) + length (fst smp) + (length ([] :: nat list) + i))"
    by blast
  from e run have ext: "ext = [[250]]" by simp
  from p ext have "\<exists>b. recovery_round [] [([0], [6])] [] = Inr b \<and> [250] = [] @ [b]"
    and "length (known_bytes_of [] [0] []) = 1"
    by auto
  with run show ?thesis by auto
qed

end
